theory Spec2Isabelle
  imports Complex_Main "HOL-Library.Word"
begin

unbundle bit_operations_syntax

section \<open>Values of the source language\<close>

text \<open>
  The cipher core (\<^verbatim>\<open>src/lib/des.ts\<close>) works on \<^verbatim>\<open>Bits = number[]\<close>, arrays that hold
  the numbers 0 and 1, and on strings of hexadecimal digits. A bit array is a list of
  natural numbers; a string is a list of characters, one per code unit. The bitwise
  operators of the source act on 32-bit integers; every value they meet here is below 16,
  so they are the bitwise operations on natural numbers.

  An array read outside the array gives \<^verbatim>\<open>undefined\<close> in the source. Each consumer of a
  bit (\<^verbatim>\<open>^\<close>, \<^verbatim>\<open>|\<close>, \<^verbatim>\<open><<\<close>) coerces \<^verbatim>\<open>undefined\<close> to 0, so such a read is the bit 0
  in the model. Indexing \<^verbatim>\<open>undefined\<close> itself raises a \<^verbatim>\<open>TypeError\<close>; the statement
  \<^verbatim>\<open>throw new Error(msg)\<close> raises an \<^verbatim>\<open>Error\<close> that carries its message.
\<close>

datatype js_error = JsTypeError | JsError string

type_synonym Bits = "nat list"

definition bitAt :: "Bits \<Rightarrow> nat \<Rightarrow> nat" where
  "bitAt bits i = (if i < length bits then bits ! i else 0)"

definition padStart :: "string \<Rightarrow> nat \<Rightarrow> char \<Rightarrow> string" where
  "padStart s n c = replicate (n - length s) c @ s"

definition padEnd :: "string \<Rightarrow> nat \<Rightarrow> char \<Rightarrow> string" where
  "padEnd s n c = s @ replicate (n - length s) c"

text \<open>
  \<^verbatim>\<open>toLowerCase\<close> on code units below 256: the letters A to Z and the capital letters of
  Latin-1 (192 to 222 without the multiplication sign 215) move up by 32.
\<close>

definition lowerChar :: "char \<Rightarrow> char" where
  "lowerChar c =
     (let n = (of_char c :: nat)
      in if (65 \<le> n \<and> n \<le> 90) \<or> (192 \<le> n \<and> n \<le> 222 \<and> n \<noteq> 215)
         then char_of (n + 32) else c)"

definition toLowerCase :: "string \<Rightarrow> string" where
  "toLowerCase s = map lowerChar s"

text \<open>
  \<^verbatim>\<open>parseInt(char, 16)\<close> on a string of one character: the value of a hexadecimal digit
  of either case, \<^verbatim>\<open>NaN\<close> (here \<open>None\<close>) for anything else.
\<close>

definition hexDigitValue :: "char \<Rightarrow> nat option" where
  "hexDigitValue c =
     (let n = (of_char c :: nat)
      in if 48 \<le> n \<and> n \<le> 57 then Some (n - 48)
         else if 97 \<le> n \<and> n \<le> 102 then Some (n - 87)
         else if 65 \<le> n \<and> n \<le> 70 then Some (n - 55)
         else None)"

section \<open>The tables\<close>

definition IP_TABLE :: "nat list" where
  "IP_TABLE =
    [58, 50, 42, 34, 26, 18, 10, 2, 60, 52, 44, 36, 28, 20, 12, 4, 62, 54, 46, 38,
     30, 22, 14, 6, 64, 56, 48, 40, 32, 24, 16, 8, 57, 49, 41, 33, 25, 17, 9, 1, 59,
     51, 43, 35, 27, 19, 11, 3, 61, 53, 45, 37, 29, 21, 13, 5, 63, 55, 47, 39, 31,
     23, 15, 7]"

definition FP_TABLE :: "nat list" where
  "FP_TABLE =
    [40, 8, 48, 16, 56, 24, 64, 32, 39, 7, 47, 15, 55, 23, 63, 31, 38, 6, 46, 14,
     54, 22, 62, 30, 37, 5, 45, 13, 53, 21, 61, 29, 36, 4, 44, 12, 52, 20, 60, 28,
     35, 3, 43, 11, 51, 19, 59, 27, 34, 2, 42, 10, 50, 18, 58, 26, 33, 1, 41, 9, 49,
     17, 57, 25]"

definition E_TABLE :: "nat list" where
  "E_TABLE =
    [32, 1, 2, 3, 4, 5, 4, 5, 6, 7, 8, 9, 8, 9, 10, 11, 12, 13, 12, 13, 14, 15, 16,
     17, 16, 17, 18, 19, 20, 21, 20, 21, 22, 23, 24, 25, 24, 25, 26, 27, 28, 29, 28,
     29, 30, 31, 32, 1]"

definition P_TABLE :: "nat list" where
  "P_TABLE =
    [16, 7, 20, 21, 29, 12, 28, 17, 1, 15, 23, 26, 5, 18, 31, 10, 2, 8, 24, 14, 32,
     27, 3, 9, 19, 13, 30, 6, 22, 11, 4, 25]"

definition PC1_TABLE :: "nat list" where
  "PC1_TABLE =
    [57, 49, 41, 33, 25, 17, 9, 1, 58, 50, 42, 34, 26, 18, 10, 2, 59, 51, 43, 35,
     27, 19, 11, 3, 60, 52, 44, 36, 63, 55, 47, 39, 31, 23, 15, 7, 62, 54, 46, 38,
     30, 22, 14, 6, 61, 53, 45, 37, 29, 21, 13, 5, 28, 20, 12, 4]"

definition PC2_TABLE :: "nat list" where
  "PC2_TABLE =
    [14, 17, 11, 24, 1, 5, 3, 28, 15, 6, 21, 10, 23, 19, 12, 4, 26, 8, 16, 7, 27, 20,
     13, 2, 41, 52, 31, 37, 47, 55, 30, 40, 51, 45, 33, 48, 44, 49, 39, 56, 34, 53,
     46, 42, 50, 36, 29, 32]"

definition SHIFT_SCHEDULE :: "nat list" where
  "SHIFT_SCHEDULE = [1, 1, 2, 2, 2, 2, 2, 2, 1, 2, 2, 2, 2, 2, 2, 1]"

definition S_BOXES :: "nat list list list" where
  "S_BOXES =
    [ [ [14, 4, 13, 1, 2, 15, 11, 8, 3, 10, 6, 12, 5, 9, 0, 7],
      [0, 15, 7, 4, 14, 2, 13, 1, 10, 6, 12, 11, 9, 5, 3, 8],
      [4, 1, 14, 8, 13, 6, 2, 11, 15, 12, 9, 7, 3, 10, 5, 0],
      [15, 12, 8, 2, 4, 9, 1, 7, 5, 11, 3, 14, 10, 0, 6, 13]],
     [ [15, 1, 8, 14, 6, 11, 3, 4, 9, 7, 2, 13, 12, 0, 5, 10],
      [3, 13, 4, 7, 15, 2, 8, 14, 12, 0, 1, 10, 6, 9, 11, 5],
      [0, 14, 7, 11, 10, 4, 13, 1, 5, 8, 12, 6, 9, 3, 2, 15],
      [13, 8, 10, 1, 3, 15, 4, 2, 11, 6, 7, 12, 0, 5, 14, 9]],
     [ [10, 0, 9, 14, 6, 3, 15, 5, 1, 13, 12, 7, 11, 4, 2, 8],
      [13, 7, 0, 9, 3, 4, 6, 10, 2, 8, 5, 14, 12, 11, 15, 1],
      [13, 6, 4, 9, 8, 15, 3, 0, 11, 1, 2, 12, 5, 10, 14, 7],
      [1, 10, 13, 0, 6, 9, 8, 7, 4, 15, 14, 3, 11, 5, 2, 12]],
     [ [7, 13, 14, 3, 0, 6, 9, 10, 1, 2, 8, 5, 11, 12, 4, 15],
      [13, 8, 11, 5, 6, 15, 0, 3, 4, 7, 2, 12, 1, 10, 14, 9],
      [10, 6, 9, 0, 12, 11, 7, 13, 15, 1, 3, 14, 5, 2, 8, 4],
      [3, 15, 0, 6, 10, 1, 13, 8, 9, 4, 5, 11, 12, 7, 2, 14]],
     [ [2, 12, 4, 1, 7, 10, 11, 6, 8, 5, 3, 15, 13, 0, 14, 9],
      [14, 11, 2, 12, 4, 7, 13, 1, 5, 0, 15, 10, 3, 9, 8, 6],
      [4, 2, 1, 11, 10, 13, 7, 8, 15, 9, 12, 5, 6, 3, 0, 14],
      [11, 8, 12, 7, 1, 14, 2, 13, 6, 15, 0, 9, 10, 4, 5, 3]],
     [ [12, 1, 10, 15, 9, 2, 6, 8, 0, 13, 3, 4, 14, 7, 5, 11],
      [10, 15, 4, 2, 7, 12, 9, 5, 6, 1, 13, 14, 0, 11, 3, 8],
      [9, 14, 15, 5, 2, 8, 12, 3, 7, 0, 4, 10, 1, 13, 11, 6],
      [4, 3, 2, 12, 9, 5, 15, 10, 11, 14, 1, 7, 6, 0, 8, 13]],
     [ [4, 11, 2, 14, 15, 0, 8, 13, 3, 12, 9, 7, 5, 10, 6, 1],
      [13, 0, 11, 7, 4, 9, 1, 10, 14, 3, 5, 12, 2, 15, 8, 6],
      [1, 4, 11, 13, 12, 3, 7, 14, 10, 15, 6, 8, 0, 5, 9, 2],
      [6, 11, 13, 8, 1, 4, 10, 7, 9, 5, 0, 15, 14, 2, 3, 12]],
     [ [13, 2, 8, 4, 6, 15, 11, 1, 10, 9, 3, 14, 5, 0, 12, 7],
      [1, 15, 13, 8, 10, 3, 7, 4, 12, 5, 6, 11, 0, 14, 9, 2],
      [7, 11, 4, 1, 9, 12, 14, 2, 0, 6, 10, 13, 15, 3, 5, 8],
      [2, 1, 14, 7, 4, 10, 8, 13, 15, 12, 9, 0, 3, 5, 6, 11]] ]"

definition hexLookup :: string where
  "hexLookup = ''0123456789abcdef''"

section \<open>Bit and table primitives\<close>

text \<open>\<^verbatim>\<open>table.map((index) => bits[index - 1])\<close>; index 0 reads \<^verbatim>\<open>bits[-1]\<close>.\<close>

definition permute :: "Bits \<Rightarrow> nat list \<Rightarrow> Bits" where
  "permute bits table = map (\<lambda>index. if index = 0 then 0 else bitAt bits (index - 1)) table"

text \<open>
  \<^verbatim>\<open>shift % bits.length\<close> is \<^verbatim>\<open>NaN\<close> on an empty array, and \<^verbatim>\<open>slice(NaN)\<close> is
  \<^verbatim>\<open>slice(0)\<close>.
\<close>

definition leftShift :: "Bits \<Rightarrow> nat \<Rightarrow> Bits" where
  "leftShift bits shift =
     (let normalized = (if length bits = 0 then 0 else shift mod length bits)
      in drop normalized bits @ take normalized bits)"

definition xorBits :: "Bits \<Rightarrow> Bits \<Rightarrow> Bits" where
  "xorBits a b = map (\<lambda>idx. ((a ! idx) XOR bitAt b idx) AND 1) [0..<length a]"

text \<open>
  The loop \<^verbatim>\<open>for (let i = 0; i < bits.length; i += size)\<close> never ends when \<^verbatim>\<open>size\<close> is
  0 and the array is not empty: that is the result \<open>None\<close>. The source calls it with the
  sizes 4 and 6.
\<close>

function chunkBits :: "Bits \<Rightarrow> nat \<Rightarrow> Bits list option" where
  "chunkBits bits sz =
     (if bits = [] then Some []
      else if sz = 0 then None
      else map_option (\<lambda>chunks. take sz bits # chunks) (chunkBits (drop sz bits) sz))"
  by pat_completeness auto
termination
  by (relation "measure (\<lambda>(bits, sz). length bits)") auto

declare chunkBits.simps [simp del]

text \<open>
  \<^verbatim>\<open>hexLookup[value]\<close> is \<^verbatim>\<open>undefined\<close> from 16 on, which \<^verbatim>\<open>join('')\<close> writes as the
  empty string: a digit is a string of length at most one.
\<close>

definition toHexDigit :: "Bits \<Rightarrow> string" where
  "toHexDigit bits =
     (let v = foldl (\<lambda>acc bit. (push_bit 1 acc) OR bit) 0 bits
      in if v < length hexLookup then [hexLookup ! v] else [])"

definition bitsToHex :: "Bits \<Rightarrow> string" where
  "bitsToHex bits =
     (case chunkBits bits 4 of
        Some chunks \<Rightarrow> concat (map toHexDigit chunks)
      | None \<Rightarrow> [])"

text \<open>
  \<^verbatim>\<open>hexToBits(hex, size)\<close>: \<^verbatim>\<open>NaN >> k\<close> is 0, so a character that is no digit gives
  four zero bits. \<^verbatim>\<open>padStart\<close> rounds its length \<^verbatim>\<open>size / 4\<close> down, and \<^verbatim>\<open>slice\<close> with a
  negative start counts from the end of the array.
\<close>

definition nibbleBits :: "char \<Rightarrow> Bits" where
  "nibbleBits c =
     (let v = (case hexDigitValue c of Some n \<Rightarrow> n | None \<Rightarrow> 0)
      in [(drop_bit 3 v) AND 1, (drop_bit 2 v) AND 1, (drop_bit 1 v) AND 1, v AND 1])"

definition sliceFrom :: "'a list \<Rightarrow> int \<Rightarrow> 'a list" where
  "sliceFrom xs start =
     (if start < 0 then drop (nat (int (length xs) + start)) xs else drop (nat start) xs)"

definition hexToBits :: "string \<Rightarrow> nat \<Rightarrow> Bits" where
  "hexToBits hex sz =
     (let padded = padStart (toLowerCase hex) (sz div 4) (CHR ''0'');
          bits = concat (map nibbleBits padded)
      in sliceFrom bits (int (length bits) - int sz))"

definition initial_permutation :: "Bits \<Rightarrow> Bits" where
  "initial_permutation block = permute block IP_TABLE"

definition final_permutation :: "Bits \<Rightarrow> Bits" where
  "final_permutation block = permute block FP_TABLE"

definition expansion_permutation :: "Bits \<Rightarrow> Bits" where
  "expansion_permutation bits = permute bits E_TABLE"

definition p_box_permutation :: "Bits \<Rightarrow> Bits" where
  "p_box_permutation bits = permute bits P_TABLE"

section \<open>The round function\<close>

text \<open>
  The body of \<^verbatim>\<open>chunks.forEach((chunk, index) => ...)\<close> in \<^verbatim>\<open>s_box_substitution\<close>.
  \<^verbatim>\<open>S_BOXES[index][row][column]\<close> raises a \<^verbatim>\<open>TypeError\<close> when there is no box
  \<^verbatim>\<open>index\<close> or no row \<^verbatim>\<open>row\<close>; a column outside the row gives \<^verbatim>\<open>undefined\<close>, whose bits
  are 0.
\<close>

fun s_box_loop :: "Bits list \<Rightarrow> nat \<Rightarrow> Bits \<Rightarrow> js_error + Bits" where
  "s_box_loop [] index output = Inr output"
| "s_box_loop (chunk # chunks) index output =
     (let row = (push_bit 1 (bitAt chunk 0)) OR bitAt chunk 5;
          column = (push_bit 3 (bitAt chunk 1)) OR (push_bit 2 (bitAt chunk 2))
                     OR (push_bit 1 (bitAt chunk 3)) OR bitAt chunk 4
      in if index < length S_BOXES \<and> row < length (S_BOXES ! index)
         then let sValue = bitAt (S_BOXES ! index ! row) column
              in s_box_loop chunks (index + 1)
                   (output @ [(drop_bit 3 sValue) AND 1, (drop_bit 2 sValue) AND 1,
                              (drop_bit 1 sValue) AND 1, sValue AND 1])
         else Inl JsTypeError)"

definition s_box_substitution :: "Bits \<Rightarrow> js_error + Bits" where
  "s_box_substitution bits =
     (case chunkBits bits 6 of
        Some chunks \<Rightarrow> s_box_loop chunks 0 []
      | None \<Rightarrow> Inr [])"

record FResult =
  f_expanded :: Bits
  f_xorResult :: Bits
  f_sBoxResult :: Bits
  f_pBoxResult :: Bits

definition f_function :: "Bits \<Rightarrow> Bits \<Rightarrow> js_error + FResult" where
  "f_function right subKey =
     (let expanded = expansion_permutation right;
          xorResult = xorBits expanded subKey
      in case s_box_substitution xorResult of
           Inl e \<Rightarrow> Inl e
         | Inr sBoxResult \<Rightarrow>
             Inr \<lparr> f_expanded = expanded, f_xorResult = xorResult,
                   f_sBoxResult = sBoxResult,
                   f_pBoxResult = p_box_permutation sBoxResult \<rparr>)"

record RoundResult =
  r_left :: Bits
  r_right :: Bits
  r_expanded :: Bits
  r_xorResult :: Bits
  r_sBoxResult :: Bits
  r_pBoxResult :: Bits

definition feistel_round :: "Bits \<Rightarrow> Bits \<Rightarrow> Bits \<Rightarrow> js_error + RoundResult" where
  "feistel_round left right subKey =
     (case f_function right subKey of
        Inl e \<Rightarrow> Inl e
      | Inr f \<Rightarrow>
          Inr \<lparr> r_left = right, r_right = xorBits left (f_pBoxResult f),
                r_expanded = f_expanded f, r_xorResult = f_xorResult f,
                r_sBoxResult = f_sBoxResult f, r_pBoxResult = f_pBoxResult f \<rparr>)"

section \<open>The key schedule\<close>

record KeyScheduleRound =
  ks_round :: nat
  ks_shifts :: nat
  ks_c :: string
  ks_d :: string
  ks_subKey :: string

record KeyScheduleInfo =
  parityDroppedKey :: string
  ks_rounds :: "KeyScheduleRound list"

record Subkeys = KeyScheduleInfo +
  subKeys :: "string list"

text \<open>
  The body of \<^verbatim>\<open>SHIFT_SCHEDULE.forEach((shift, index) => ...)\<close>: the registers
  \<^verbatim>\<open>c\<close> and \<^verbatim>\<open>d\<close> and the two arrays that the callback appends to are the state.
\<close>

fun subkey_loop ::
  "nat list \<Rightarrow> nat \<Rightarrow> Bits \<Rightarrow> Bits \<Rightarrow> KeyScheduleRound list \<Rightarrow> string list
     \<Rightarrow> KeyScheduleRound list \<times> string list" where
  "subkey_loop [] index c d rounds subKeys' = (rounds, subKeys')"
| "subkey_loop (shift # rest) index c d rounds subKeys' =
     (let c' = leftShift c shift;
          d' = leftShift d shift;
          combined = c' @ d';
          subKeyBits = permute combined PC2_TABLE;
          subKeyHex = bitsToHex subKeyBits
      in subkey_loop rest (index + 1) c' d'
           (rounds @ [\<lparr> ks_round = index + 1, ks_shifts = shift, ks_c = bitsToHex c',
                         ks_d = bitsToHex d', ks_subKey = subKeyHex \<rparr>])
           (subKeys' @ [subKeyHex]))"

definition generate_subkeys :: "string \<Rightarrow> Subkeys" where
  "generate_subkeys keyHex =
     (let keyBits = hexToBits (take 16 (padEnd keyHex 16 (CHR ''0''))) 64;
          parityDropped = permute keyBits PC1_TABLE;
          c = take 28 parityDropped;
          d = drop 28 parityDropped;
          (rounds, subKeys') = subkey_loop SHIFT_SCHEDULE 0 c d [] []
      in \<lparr> parityDroppedKey = bitsToHex parityDropped, ks_rounds = rounds,
            subKeys = subKeys' \<rparr>)"

section \<open>The single-block cipher\<close>

datatype des_mode = Encrypt | Decrypt

record RoundInfo =
  ri_round :: nat
  ri_left :: string
  ri_right :: string
  ri_subKey :: string
  ri_expanded :: string
  ri_xorWithKey :: string
  ri_sBoxOutput :: string
  ri_pBoxOutput :: string
  ri_roundOutput :: string

text \<open>
  The result of \<^verbatim>\<open>runCore\<close>, without its field \<^verbatim>\<open>id\<close>, a random label from \<^verbatim>\<open>nanoid()\<close>
  that nothing reads.
\<close>

record DESResult =
  res_mode :: des_mode
  inputHex :: string
  outputHex :: string
  ipOutput :: string
  fpOutput :: string
  res_rounds :: "RoundInfo list"
  res_subKeys :: "string list"
  keySchedule :: KeyScheduleInfo

text \<open>
  The body of \<^verbatim>\<open>sequence.forEach((subKeyHex, index) => ...)\<close> in \<^verbatim>\<open>runCore\<close>, with the
  halves \<^verbatim>\<open>left\<close> and \<^verbatim>\<open>right\<close> and the trace \<^verbatim>\<open>roundData\<close> as the state.
\<close>

fun round_loop ::
  "string list \<Rightarrow> nat \<Rightarrow> Bits \<Rightarrow> Bits \<Rightarrow> RoundInfo list
     \<Rightarrow> js_error + (Bits \<times> Bits \<times> RoundInfo list)" where
  "round_loop [] index left right roundData = Inr (left, right, roundData)"
| "round_loop (subKeyHex # rest) index left right roundData =
     (let subKeyBits = hexToBits subKeyHex 48
      in case feistel_round left right subKeyBits of
           Inl e \<Rightarrow> Inl e
         | Inr r \<Rightarrow>
             round_loop rest (index + 1) (r_left r) (r_right r)
               (roundData @
                 [\<lparr> ri_round = index + 1, ri_left = bitsToHex left, ri_right = bitsToHex right,
                    ri_subKey = subKeyHex, ri_expanded = bitsToHex (r_expanded r),
                    ri_xorWithKey = bitsToHex (r_xorResult r),
                    ri_sBoxOutput = bitsToHex (r_sBoxResult r),
                    ri_pBoxOutput = bitsToHex (r_pBoxResult r),
                    ri_roundOutput = bitsToHex (r_left r @ r_right r) \<rparr>]))"

definition runCore :: "string \<Rightarrow> string \<Rightarrow> des_mode \<Rightarrow> js_error + DESResult" where
  "runCore inputHex' keyHex mode =
     (let block = hexToBits inputHex' 64;
          ip = initial_permutation block;
          ks = generate_subkeys keyHex;
          left = take 32 ip;
          right = drop 32 ip;
          sequence = (if mode = Encrypt then subKeys ks else rev (subKeys ks))
      in case round_loop sequence 0 left right [] of
           Inl e \<Rightarrow> Inl e
         | Inr (left', right', roundData) \<Rightarrow>
             (let preOutput = right' @ left';
                  fp = final_permutation preOutput
              in Inr \<lparr> res_mode = mode, inputHex = toLowerCase inputHex',
                       outputHex = bitsToHex fp, ipOutput = bitsToHex ip,
                       fpOutput = bitsToHex fp, res_rounds = roundData,
                       res_subKeys = sequence,
                       keySchedule = \<lparr> parityDroppedKey = parityDroppedKey ks,
                                       ks_rounds = ks_rounds ks \<rparr> \<rparr>))"

definition des_encrypt :: "string \<Rightarrow> string \<Rightarrow> js_error + DESResult" where
  "des_encrypt plaintextHex keyHex = runCore plaintextHex keyHex Encrypt"

definition des_decrypt :: "string \<Rightarrow> string \<Rightarrow> js_error + DESResult" where
  "des_decrypt ciphertextHex keyHex = runCore ciphertextHex keyHex Decrypt"

text \<open>The field \<^verbatim>\<open>outputHex\<close> of a call that may raise.\<close>

definition output_of :: "js_error + DESResult \<Rightarrow> js_error + string" where
  "output_of r = (case r of Inl e \<Rightarrow> Inl e | Inr res \<Rightarrow> Inr (outputHex res))"

section \<open>The diagnostic variant engine\<close>

text \<open>
  \<^verbatim>\<open>services/diagnostics\<close>. The regular expression \<^verbatim>\<open>/[^0-9a-f]/gi\<close> deletes every
  character that is not a hexadecimal digit of either case.
\<close>

definition normalizeBlockHex :: "string \<Rightarrow> string" where
  "normalizeBlockHex hex =
     toLowerCase (take 16 (padEnd (filter (\<lambda>c. hexDigitValue c \<noteq> None) hex) 16 (CHR ''0'')))"

text \<open>The module's own copies of \<^verbatim>\<open>permute\<close> and \<^verbatim>\<open>leftShift\<close>.\<close>

definition permuteBits :: "Bits \<Rightarrow> nat list \<Rightarrow> Bits" where
  "permuteBits bits table = map (\<lambda>index. if index = 0 then 0 else bitAt bits (index - 1)) table"

definition leftShift' :: "Bits \<Rightarrow> nat \<Rightarrow> Bits" where
  "leftShift' bits shift =
     (let normalized = (if length bits = 0 then 0 else shift mod length bits)
      in drop normalized bits @ take normalized bits)"

text \<open>The body of \<^verbatim>\<open>schedule.forEach((shift) => ...)\<close>.\<close>

fun variant_subkey_loop :: "nat list \<Rightarrow> Bits \<Rightarrow> Bits \<Rightarrow> string list \<Rightarrow> string list" where
  "variant_subkey_loop [] c d subKeys' = subKeys'"
| "variant_subkey_loop (shift # rest) c d subKeys' =
     (let c' = leftShift' c shift;
          d' = leftShift' d shift;
          combined = c' @ d';
          subKeyBits = permuteBits combined PC2_TABLE
      in variant_subkey_loop rest c' d' (subKeys' @ [bitsToHex subKeyBits]))"

definition generateSubkeysWithSchedule :: "string \<Rightarrow> nat list option \<Rightarrow> string list" where
  "generateSubkeysWithSchedule keyHex shiftSchedule' =
     (let keyBits = hexToBits (normalizeBlockHex keyHex) 64;
          parityDropped = permuteBits keyBits PC1_TABLE;
          c = take 28 parityDropped;
          d = drop 28 parityDropped;
          schedule = (case shiftSchedule' of Some s \<Rightarrow> s | None \<Rightarrow> SHIFT_SCHEDULE)
      in variant_subkey_loop schedule c d [])"

text \<open>
  \<^verbatim>\<open>VariantOptions\<close>: every field is optional, and a field that is absent is \<open>None\<close>.
\<close>

datatype key_order = Normal | Reversed

record VariantOptions =
  skipIP :: "bool option"
  skipFP :: "bool option"
  skipFinalSwap :: "bool option"
  swapAfterRound :: "nat list option"
  roundLimit :: "nat option"
  keyOrder :: "key_order option"
  shiftSchedule :: "nat list option"

definition no_options :: VariantOptions where
  "no_options = \<lparr> skipIP = None, skipFP = None, skipFinalSwap = None, swapAfterRound = None,
                  roundLimit = None, keyOrder = None, shiftSchedule = None \<rparr>"

text \<open>
  The loop \<^verbatim>\<open>for (let i = 0; i < roundsToRun; i += 1)\<close> of \<^verbatim>\<open>runVariant\<close>. Reading
  \<^verbatim>\<open>sequence[i]\<close> past the end gives \<^verbatim>\<open>undefined\<close>, on which \<^verbatim>\<open>hexToBits\<close> raises a
  \<^verbatim>\<open>TypeError\<close>.
\<close>

function variant_round_loop ::
  "nat \<Rightarrow> nat \<Rightarrow> string list \<Rightarrow> VariantOptions \<Rightarrow> Bits \<Rightarrow> Bits \<Rightarrow> js_error + (Bits \<times> Bits)" where
  "variant_round_loop i roundsToRun sequence opts left right =
     (if i < roundsToRun then
        (if i < length sequence then
           (let subKeyHex = sequence ! i;
                subKeyBits = hexToBits subKeyHex 48
            in case feistel_round left right subKeyBits of
                 Inl e \<Rightarrow> Inl e
               | Inr r \<Rightarrow>
                   (let swapHere = (case swapAfterRound opts of
                                      None \<Rightarrow> False
                                    | Some rounds \<Rightarrow> i + 1 \<in> set rounds)
                    in variant_round_loop (i + 1) roundsToRun sequence opts
                         (if swapHere then r_right r else r_left r)
                         (if swapHere then r_left r else r_right r)))
         else Inl JsTypeError)
      else Inr (left, right))"
  by pat_completeness auto
termination
  by (relation "measure (\<lambda>(i, roundsToRun, sequence, opts, left, right). roundsToRun - i)") auto

declare variant_round_loop.simps [simp del]

definition runVariant :: "string \<Rightarrow> string \<Rightarrow> VariantOptions \<Rightarrow> js_error + string" where
  "runVariant inputHex' keyHex opts =
     (let block = hexToBits (normalizeBlockHex inputHex') 64;
          ip = (if skipIP opts = Some True then block else initial_permutation block);
          subKeys' = generateSubkeysWithSchedule keyHex (shiftSchedule opts);
          sequence = (if keyOrder opts = Some Reversed then rev subKeys' else subKeys');
          roundsToRun = min (length sequence) (case roundLimit opts of Some n \<Rightarrow> n | None \<Rightarrow> 16);
          left = take 32 ip;
          right = drop 32 ip
      in case variant_round_loop 0 roundsToRun sequence opts left right of
           Inl e \<Rightarrow> Inl e
         | Inr (left', right') \<Rightarrow>
             (let preOutput = (if skipFinalSwap opts = Some True then left' @ right'
                               else right' @ left');
                  fp = (if skipFP opts = Some True then preOutput
                        else final_permutation preOutput)
              in Inr (bitsToHex fp)))"

text \<open>
  The result of a diagnosis and the catalog of patterns. The fields \<^verbatim>\<open>label\<close> and
  \<^verbatim>\<open>variantMatched\<close> are display texts outside ASCII and are left out. The credits are
  the decimal literals of the source, as rational numbers.
\<close>

record DiagnosisResult =
  matchedPattern :: "string option"
  message :: string
  expectedOutput :: string
  studentOutput :: string
  score :: rat
  tags :: "string list"

record Pattern =
  code :: string
  p_options :: VariantOptions
  description :: string
  credit :: rat

definition patterns :: "Pattern list" where
  "patterns =
    [\<lparr> code = ''skip-ip-fp'',
       p_options = no_options \<lparr> skipIP := Some True, skipFP := Some True \<rparr>,
       description = ''Student output matches a run with no initial/final permutation.'',
       credit = 6 / 10 \<rparr>,
     \<lparr> code = ''skip-ip'',
       p_options = no_options \<lparr> skipIP := Some True \<rparr>,
       description = ''Initial Permutation (IP) was skipped but FP was still applied.'',
       credit = 5 / 10 \<rparr>,
     \<lparr> code = ''no-final-swap'',
       p_options = no_options \<lparr> skipFinalSwap := Some True \<rparr>,
       description = ''Halves were not swapped before the final permutation.'',
       credit = 6 / 10 \<rparr>,
     \<lparr> code = ''swap-after-round-1'',
       p_options = no_options \<lparr> swapAfterRound := Some [1] \<rparr>,
       description = ''Left/right halves inverted after round 1.'',
       credit = 5 / 10 \<rparr>,
     \<lparr> code = ''reversed-subkeys'',
       p_options = no_options \<lparr> keyOrder := Some Reversed \<rparr>,
       description = ''Round keys applied in reverse order.'',
       credit = 4 / 10 \<rparr>,
     \<lparr> code = ''two-rounds-only'',
       p_options = no_options \<lparr> roundLimit := Some 2 \<rparr>,
       description = ''Execution ended after round 2.'',
       credit = 2 / 10 \<rparr>,
     \<lparr> code = ''four-rounds-only'',
       p_options = no_options \<lparr> roundLimit := Some 4 \<rparr>,
       description = ''Execution ended after round 4.'',
       credit = 3 / 10 \<rparr>,
     \<lparr> code = ''all-one-bit-shifts'',
       p_options = no_options \<lparr> shiftSchedule := Some (replicate 16 1) \<rparr>,
       description = ''Used 1-bit shifts for all key-schedule rounds.'',
       credit = 3 / 10 \<rparr>]"

text \<open>The loop \<^verbatim>\<open>for (const pattern of patterns)\<close> with its early return.\<close>

fun pattern_loop ::
  "Pattern list \<Rightarrow> string \<Rightarrow> string \<Rightarrow> string \<Rightarrow> string \<Rightarrow> js_error + DiagnosisResult" where
  "pattern_loop [] plaintextHex keyHex studentOutput' expectedOutput' =
     Inr \<lparr> matchedPattern = None,
           message = ''No known mistake pattern matched. Likely multiple or different errors.'',
           expectedOutput = expectedOutput', studentOutput = studentOutput', score = 0,
           tags = [''incorrect'', ''unclassified''] \<rparr>"
| "pattern_loop (pattern # rest) plaintextHex keyHex studentOutput' expectedOutput' =
     (case runVariant plaintextHex keyHex (p_options pattern) of
        Inl e \<Rightarrow> Inl e
      | Inr variantOutput \<Rightarrow>
          if variantOutput = studentOutput'
          then (let credit' = min 1 (max 0 (credit pattern))
                in Inr \<lparr> matchedPattern = Some (code pattern), message = description pattern,
                         expectedOutput = expectedOutput', studentOutput = studentOutput',
                         score = credit', tags = [''incorrect'', code pattern] \<rparr>)
          else pattern_loop rest plaintextHex keyHex studentOutput' expectedOutput')"

definition diagnoseDESSubmission :: "string \<Rightarrow> string \<Rightarrow> string \<Rightarrow> js_error + DiagnosisResult" where
  "diagnoseDESSubmission plaintextHex' keyHex' studentOutputHex =
     (let plaintextHex = normalizeBlockHex plaintextHex';
          keyHex = normalizeBlockHex keyHex';
          studentOutput' = normalizeBlockHex studentOutputHex
      in case des_encrypt plaintextHex keyHex of
           Inl e \<Rightarrow> Inl e
         | Inr expected \<Rightarrow>
             (let expectedOutput' = outputHex expected
              in if studentOutput' = expectedOutput'
                 then Inr \<lparr> matchedPattern = Some ''correct'',
                            message = ''Answer matches expected ciphertext.'',
                            expectedOutput = expectedOutput', studentOutput = studentOutput',
                            score = 1, tags = [''correct''] \<rparr>
                 else pattern_loop patterns plaintextHex keyHex studentOutput' expectedOutput'))"

section \<open>Bytes and their hexadecimal notation\<close>

text \<open>
  The mode layer works on \<^verbatim>\<open>Uint8Array\<close>s: lists of 8-bit words. A read outside the
  array is \<^verbatim>\<open>undefined\<close>, which \<^verbatim>\<open>^\<close> takes as 0; a store wraps modulo 256.
\<close>

type_synonym bytes = "8 word list"

definition byteAt :: "bytes \<Rightarrow> nat \<Rightarrow> 8 word" where
  "byteAt a i = (if i < length a then a ! i else 0)"

text \<open>\<^verbatim>\<open>n.toString(16)\<close> for a natural number.\<close>

function toString16 :: "nat \<Rightarrow> string" where
  "toString16 n = (if n < 16 then [hexLookup ! n] else toString16 (n div 16) @ [hexLookup ! (n mod 16)])"
  by pat_completeness auto
termination
  by (relation "measure (\<lambda>n. n)") auto

declare toString16.simps [simp del]

definition bytesToHex :: "bytes \<Rightarrow> string" where
  "bytesToHex bs = concat (map (\<lambda>byte. padStart (toString16 (unat byte)) 2 (CHR ''0'')) bs)"

text \<open>
  White space for \<^verbatim>\<open>trim\<close> and \<^verbatim>\<open>parseInt\<close>, among the code units below 256: tab, line
  feed, vertical tab, form feed, carriage return, space and no-break space.
\<close>

definition isJsSpace :: "char \<Rightarrow> bool" where
  "isJsSpace c = ((of_char c :: nat) \<in> {9, 10, 11, 12, 13, 32, 160})"

definition trim :: "string \<Rightarrow> string" where
  "trim s = rev (dropWhile isJsSpace (rev (dropWhile isJsSpace s)))"

text \<open>
  \<^verbatim>\<open>parseInt(s, 16)\<close>: leading white space is skipped, then a sign, then a prefix
  \<^verbatim>\<open>0x\<close> or \<^verbatim>\<open>0X\<close>; the longest run of hexadecimal digits that follows is the number,
  and \<^verbatim>\<open>NaN\<close> (here \<open>None\<close>) is the result when that run is empty.
\<close>

definition parseInt16 :: "string \<Rightarrow> int option" where
  "parseInt16 s =
     (let s1 = dropWhile isJsSpace s;
          negative = (s1 \<noteq> [] \<and> hd s1 = CHR ''-'');
          s2 = (if s1 \<noteq> [] \<and> (hd s1 = CHR ''+'' \<or> hd s1 = CHR ''-'') then tl s1 else s1);
          s3 = (if 2 \<le> length s2 \<and> hd s2 = CHR ''0''
                    \<and> (s2 ! 1 = CHR ''x'' \<or> s2 ! 1 = CHR ''X'')
                then drop 2 s2 else s2);
          digits = takeWhile (\<lambda>c. hexDigitValue c \<noteq> None) s3;
          magnitude = foldl (\<lambda>acc c. 16 * acc + int (the (hexDigitValue c))) 0 digits
      in if digits = [] then None
         else Some (if negative then - magnitude else magnitude))"

text \<open>The loop \<^verbatim>\<open>for (let i = 0; i < sanitized.length; i += 2)\<close> of \<^verbatim>\<open>hexToBytes\<close>.\<close>

function hexToBytes_loop :: "string \<Rightarrow> bytes \<Rightarrow> js_error + bytes" where
  "hexToBytes_loop rest acc =
     (if rest = [] then Inr acc
      else case parseInt16 (take 2 rest) of
             None \<Rightarrow> Inl (JsError ''Invalid hex input.'')
           | Some byte \<Rightarrow> hexToBytes_loop (drop 2 rest) (acc @ [word_of_int byte]))"
  by pat_completeness auto
termination
  by (relation "measure (\<lambda>(rest, acc). length rest)") auto

declare hexToBytes_loop.simps [simp del]

definition hexToBytes :: "string \<Rightarrow> js_error + bytes" where
  "hexToBytes hex =
     (let sanitized = trim hex
      in if length sanitized mod 2 \<noteq> 0 then Inl (JsError ''Hex input must have an even length.'')
         else hexToBytes_loop sanitized [])"

section \<open>Padding\<close>

definition padTo8Bytes :: "bytes \<Rightarrow> bytes" where
  "padTo8Bytes bs =
     (let pad = 8 - (length bs mod 8);
          padValue = (if pad = 0 then 8 else pad)
      in bs @ replicate padValue (of_nat padValue))"

text \<open>
  The loop \<^verbatim>\<open>for (let i = 0; i < pad; i += 1)\<close> of \<^verbatim>\<open>unpadPkcs\<close>: \<open>False\<close> when it
  leaves the function early, at a byte that differs from \<^verbatim>\<open>pad\<close>.
\<close>

function unpad_loop :: "bytes \<Rightarrow> nat \<Rightarrow> nat \<Rightarrow> bool" where
  "unpad_loop bs pad i =
     (if i < pad then
        (if bs ! (length bs - 1 - i) \<noteq> of_nat pad then False else unpad_loop bs pad (i + 1))
      else True)"
  by pat_completeness auto
termination
  by (relation "measure (\<lambda>(bs, pad, i). pad - i)") auto

declare unpad_loop.simps [simp del]

definition unpadPkcs :: "bytes \<Rightarrow> bytes" where
  "unpadPkcs bs =
     (if bs = [] then bs
      else let pad = unat (bs ! (length bs - 1))
           in if pad < 1 \<or> pad > 8 \<or> pad > length bs then bs
              else if unpad_loop bs pad 0 then take (length bs - pad) bs
              else bs)"

definition concatByteChunks :: "bytes list \<Rightarrow> bytes" where
  "concatByteChunks chunks = concat chunks"

section \<open>The modes of operation\<close>

definition xorBlocks :: "bytes \<Rightarrow> bytes \<Rightarrow> bytes" where
  "xorBlocks a b = map (\<lambda>i. byteAt a i XOR byteAt b i) [0..<8]"

text \<open>
  \<^verbatim>\<open>incrementCounter\<close>: the loop runs from index 7 down to 0 and stops at the first byte
  that does not wrap to 0. An index outside the copy reads \<^verbatim>\<open>undefined\<close>, which differs
  from 0, so the loop stops there at once. \<open>counter_loop out n\<close> is the loop from index
  \<open>n - 1\<close> on.
\<close>

fun counter_loop :: "bytes \<Rightarrow> nat \<Rightarrow> bytes" where
  "counter_loop out 0 = out"
| "counter_loop out (Suc i) =
     (if i < length out then
        (let out' = out [i := (out ! i + 1) AND 255]
         in if out' ! i \<noteq> 0 then out' else counter_loop out' i)
      else out)"

definition incrementCounter :: "bytes \<Rightarrow> bytes" where
  "incrementCounter counter = counter_loop counter 8"

definition encryptBlock :: "bytes \<Rightarrow> string \<Rightarrow> js_error + (bytes \<times> DESResult)" where
  "encryptBlock block keyHex =
     (case des_encrypt (bytesToHex block) keyHex of
        Inl e \<Rightarrow> Inl e
      | Inr res \<Rightarrow>
          (case hexToBytes (outputHex res) of
             Inl e \<Rightarrow> Inl e
           | Inr bs \<Rightarrow> Inr (bs, res)))"

definition decryptBlock :: "bytes \<Rightarrow> string \<Rightarrow> js_error + (bytes \<times> DESResult)" where
  "decryptBlock block keyHex =
     (case des_decrypt (bytesToHex block) keyHex of
        Inl e \<Rightarrow> Inl e
      | Inr res \<Rightarrow>
          (case hexToBytes (outputHex res) of
             Inl e \<Rightarrow> Inl e
           | Inr bs \<Rightarrow> Inr (bs, res)))"

datatype DesMode = ECB | CBC | CFB | OFB | CTR

definition getFirst :: "DESResult option \<Rightarrow> DESResult \<Rightarrow> DESResult option" where
  "getFirst firstBlockResult res = (case firstBlockResult of None \<Rightarrow> Some res | Some r \<Rightarrow> Some r)"

text \<open>
  The loops \<^verbatim>\<open>for (let i = 0; i < data.length; i += 8)\<close> over the slices
  \<^verbatim>\<open>data.slice(i, i + 8)\<close>: each is a recursion on \<open>rest\<close>, the part of the data from
  index \<open>i\<close> on, with the array \<^verbatim>\<open>blocks\<close>, the variable \<^verbatim>\<open>firstBlockResult\<close> and the
  chaining value of the mode (\<^verbatim>\<open>prev\<close>, \<^verbatim>\<open>feedback\<close>, \<^verbatim>\<open>ofb\<close>, \<^verbatim>\<open>counter\<close>) as the
  state. First the five loops of \<^verbatim>\<open>encryptBytesWithMode\<close>.
\<close>

function ecb_encrypt_loop ::
  "bytes \<Rightarrow> string \<Rightarrow> bytes list \<Rightarrow> DESResult option
     \<Rightarrow> js_error + (bytes list \<times> DESResult option)" where
  "ecb_encrypt_loop rest keyHex blocks firstBlockResult =
     (if rest = [] then Inr (blocks, firstBlockResult)
      else (let block = take 8 rest
            in case encryptBlock block keyHex of
                 Inl e \<Rightarrow> Inl e
               | Inr (bs, res) \<Rightarrow>
                   ecb_encrypt_loop (drop 8 rest) keyHex (blocks @ [bs])
                     (getFirst firstBlockResult res)))"
  by pat_completeness auto
termination
  by (relation "measure (\<lambda>(rest, keyHex, blocks, firstBlockResult). length rest)") auto

declare ecb_encrypt_loop.simps [simp del]

function cbc_encrypt_loop ::
  "bytes \<Rightarrow> string \<Rightarrow> bytes \<Rightarrow> bytes list \<Rightarrow> DESResult option
     \<Rightarrow> js_error + (bytes list \<times> DESResult option)" where
  "cbc_encrypt_loop rest keyHex prev blocks firstBlockResult =
     (if rest = [] then Inr (blocks, firstBlockResult)
      else (let block = take 8 rest;
                xored = xorBlocks block prev
            in case encryptBlock xored keyHex of
                 Inl e \<Rightarrow> Inl e
               | Inr (bs, res) \<Rightarrow>
                   cbc_encrypt_loop (drop 8 rest) keyHex bs (blocks @ [bs])
                     (getFirst firstBlockResult res)))"
  by pat_completeness auto
termination
  by (relation "measure (\<lambda>(rest, keyHex, prev, blocks, firstBlockResult). length rest)") auto

declare cbc_encrypt_loop.simps [simp del]

function cfb_encrypt_loop ::
  "bytes \<Rightarrow> string \<Rightarrow> bytes \<Rightarrow> bytes list \<Rightarrow> DESResult option
     \<Rightarrow> js_error + (bytes list \<times> DESResult option)" where
  "cfb_encrypt_loop rest keyHex feedback blocks firstBlockResult =
     (if rest = [] then Inr (blocks, firstBlockResult)
      else (let block = take 8 rest
            in case encryptBlock feedback keyHex of
                 Inl e \<Rightarrow> Inl e
               | Inr (keystream, res) \<Rightarrow>
                   (let cipherBlock = xorBlocks block keystream
                    in cfb_encrypt_loop (drop 8 rest) keyHex cipherBlock (blocks @ [cipherBlock])
                         (getFirst firstBlockResult res))))"
  by pat_completeness auto
termination
  by (relation "measure (\<lambda>(rest, keyHex, feedback, blocks, firstBlockResult). length rest)") auto

declare cfb_encrypt_loop.simps [simp del]

function ofb_encrypt_loop ::
  "bytes \<Rightarrow> string \<Rightarrow> bytes \<Rightarrow> bytes list \<Rightarrow> DESResult option
     \<Rightarrow> js_error + (bytes list \<times> DESResult option)" where
  "ofb_encrypt_loop rest keyHex ofb blocks firstBlockResult =
     (if rest = [] then Inr (blocks, firstBlockResult)
      else (let block = take 8 rest
            in case encryptBlock ofb keyHex of
                 Inl e \<Rightarrow> Inl e
               | Inr (keystream, res) \<Rightarrow>
                   (let cipherBlock = xorBlocks block keystream
                    in ofb_encrypt_loop (drop 8 rest) keyHex keystream (blocks @ [cipherBlock])
                         (getFirst firstBlockResult res))))"
  by pat_completeness auto
termination
  by (relation "measure (\<lambda>(rest, keyHex, ofb, blocks, firstBlockResult). length rest)") auto

declare ofb_encrypt_loop.simps [simp del]

function ctr_encrypt_loop ::
  "bytes \<Rightarrow> string \<Rightarrow> bytes \<Rightarrow> bytes list \<Rightarrow> DESResult option
     \<Rightarrow> js_error + (bytes list \<times> DESResult option)" where
  "ctr_encrypt_loop rest keyHex counter blocks firstBlockResult =
     (if rest = [] then Inr (blocks, firstBlockResult)
      else (let block = take 8 rest
            in case encryptBlock counter keyHex of
                 Inl e \<Rightarrow> Inl e
               | Inr (keystream, res) \<Rightarrow>
                   (let cipherBlock = xorBlocks block keystream
                    in ctr_encrypt_loop (drop 8 rest) keyHex (incrementCounter counter) (blocks @ [cipherBlock])
                         (getFirst firstBlockResult res))))"
  by pat_completeness auto
termination
  by (relation "measure (\<lambda>(rest, keyHex, counter, blocks, firstBlockResult). length rest)") auto

declare ctr_encrypt_loop.simps [simp del]

record EncryptOutput =
  enc_output :: bytes
  enc_firstBlockResult :: DESResult

text \<open>
  \<^verbatim>\<open>encryptBytesWithMode(plaintext, keyHex, mode, customIv)\<close>. \<open>randomBlock\<close> stands for
  the eight bytes that \<^verbatim>\<open>generateRandomBlock()\<close> draws when no IV is given. The last
  \<^verbatim>\<open>else\<close> of the source, for a mode outside \<^verbatim>\<open>DesMode\<close>, has no counterpart.
\<close>

definition encryptBytesWithMode ::
  "bytes \<Rightarrow> string \<Rightarrow> DesMode \<Rightarrow> bytes option \<Rightarrow> bytes \<Rightarrow> js_error + EncryptOutput" where
  "encryptBytesWithMode plaintext keyHex mode customIv randomBlock =
     (if mode = ECB then
        (case ecb_encrypt_loop plaintext keyHex [] None of
           Inl e \<Rightarrow> Inl e
         | Inr (blocks, firstBlockResult) \<Rightarrow>
             (case firstBlockResult of
                None \<Rightarrow> Inl (JsError ''No blocks were encrypted'')
              | Some first \<Rightarrow>
                  Inr \<lparr> enc_output = concatByteChunks blocks, enc_firstBlockResult = first \<rparr>))
      else
        (let iv = (case customIv of Some v \<Rightarrow> v | None \<Rightarrow> randomBlock)
         in case (if mode = CBC then cbc_encrypt_loop plaintext keyHex iv [] None
                  else if mode = CFB then cfb_encrypt_loop plaintext keyHex iv [] None
                  else if mode = OFB then ofb_encrypt_loop plaintext keyHex iv [] None
                  else ctr_encrypt_loop plaintext keyHex iv [] None) of
              Inl e \<Rightarrow> Inl e
            | Inr (blocks, firstBlockResult) \<Rightarrow>
                (case firstBlockResult of
                   None \<Rightarrow> Inl (JsError ''No blocks were encrypted'')
                 | Some first \<Rightarrow>
                     Inr \<lparr> enc_output = concatByteChunks [iv, concatByteChunks blocks],
                           enc_firstBlockResult = first \<rparr>)))"

text \<open>The five loops of \<^verbatim>\<open>decryptBytesWithMode\<close>.\<close>

function ecb_decrypt_loop ::
  "bytes \<Rightarrow> string \<Rightarrow> bytes list \<Rightarrow> DESResult option
     \<Rightarrow> js_error + (bytes list \<times> DESResult option)" where
  "ecb_decrypt_loop rest keyHex blocks firstBlockResult =
     (if rest = [] then Inr (blocks, firstBlockResult)
      else (let block = take 8 rest
            in case decryptBlock block keyHex of
                 Inl e \<Rightarrow> Inl e
               | Inr (bs, res) \<Rightarrow>
                   ecb_decrypt_loop (drop 8 rest) keyHex (blocks @ [bs])
                     (getFirst firstBlockResult res)))"
  by pat_completeness auto
termination
  by (relation "measure (\<lambda>(rest, keyHex, blocks, firstBlockResult). length rest)") auto

declare ecb_decrypt_loop.simps [simp del]

function cbc_decrypt_loop ::
  "bytes \<Rightarrow> string \<Rightarrow> bytes \<Rightarrow> bytes list \<Rightarrow> DESResult option
     \<Rightarrow> js_error + (bytes list \<times> DESResult option)" where
  "cbc_decrypt_loop rest keyHex prev blocks firstBlockResult =
     (if rest = [] then Inr (blocks, firstBlockResult)
      else (let block = take 8 rest
            in case decryptBlock block keyHex of
                 Inl e \<Rightarrow> Inl e
               | Inr (decrypted, res) \<Rightarrow>
                   (let plainBlock = xorBlocks decrypted prev
                    in cbc_decrypt_loop (drop 8 rest) keyHex block (blocks @ [plainBlock])
                         (getFirst firstBlockResult res))))"
  by pat_completeness auto
termination
  by (relation "measure (\<lambda>(rest, keyHex, prev, blocks, firstBlockResult). length rest)") auto

declare cbc_decrypt_loop.simps [simp del]

function cfb_decrypt_loop ::
  "bytes \<Rightarrow> string \<Rightarrow> bytes \<Rightarrow> bytes list \<Rightarrow> DESResult option
     \<Rightarrow> js_error + (bytes list \<times> DESResult option)" where
  "cfb_decrypt_loop rest keyHex feedback blocks firstBlockResult =
     (if rest = [] then Inr (blocks, firstBlockResult)
      else (let block = take 8 rest
            in case encryptBlock feedback keyHex of
                 Inl e \<Rightarrow> Inl e
               | Inr (keystream, res) \<Rightarrow>
                   (let plainBlock = xorBlocks block keystream
                    in cfb_decrypt_loop (drop 8 rest) keyHex block (blocks @ [plainBlock])
                         (getFirst firstBlockResult res))))"
  by pat_completeness auto
termination
  by (relation "measure (\<lambda>(rest, keyHex, feedback, blocks, firstBlockResult). length rest)") auto

declare cfb_decrypt_loop.simps [simp del]

function ofb_decrypt_loop ::
  "bytes \<Rightarrow> string \<Rightarrow> bytes \<Rightarrow> bytes list \<Rightarrow> DESResult option
     \<Rightarrow> js_error + (bytes list \<times> DESResult option)" where
  "ofb_decrypt_loop rest keyHex ofb blocks firstBlockResult =
     (if rest = [] then Inr (blocks, firstBlockResult)
      else (let block = take 8 rest
            in case encryptBlock ofb keyHex of
                 Inl e \<Rightarrow> Inl e
               | Inr (keystream, res) \<Rightarrow>
                   (let plainBlock = xorBlocks block keystream
                    in ofb_decrypt_loop (drop 8 rest) keyHex keystream (blocks @ [plainBlock])
                         (getFirst firstBlockResult res))))"
  by pat_completeness auto
termination
  by (relation "measure (\<lambda>(rest, keyHex, ofb, blocks, firstBlockResult). length rest)") auto

declare ofb_decrypt_loop.simps [simp del]

function ctr_decrypt_loop ::
  "bytes \<Rightarrow> string \<Rightarrow> bytes \<Rightarrow> bytes list \<Rightarrow> DESResult option
     \<Rightarrow> js_error + (bytes list \<times> DESResult option)" where
  "ctr_decrypt_loop rest keyHex counter blocks firstBlockResult =
     (if rest = [] then Inr (blocks, firstBlockResult)
      else (let block = take 8 rest
            in case encryptBlock counter keyHex of
                 Inl e \<Rightarrow> Inl e
               | Inr (keystream, res) \<Rightarrow>
                   (let plainBlock = xorBlocks block keystream
                    in ctr_decrypt_loop (drop 8 rest) keyHex (incrementCounter counter) (blocks @ [plainBlock])
                         (getFirst firstBlockResult res))))"
  by pat_completeness auto
termination
  by (relation "measure (\<lambda>(rest, keyHex, counter, blocks, firstBlockResult). length rest)") auto

declare ctr_decrypt_loop.simps [simp del]

text \<open>
  The result of \<^verbatim>\<open>decryptBytesWithMode\<close>: \<^verbatim>\<open>firstBlockResult!\<close> does not check, so the
  field is \<^verbatim>\<open>null\<close> (here \<open>None\<close>) when no block was decrypted.
\<close>

record DecryptOutput =
  dec_output :: bytes
  dec_firstBlockResult :: "DESResult option"

definition decryptBytesWithMode :: "bytes \<Rightarrow> string \<Rightarrow> DesMode \<Rightarrow> js_error + DecryptOutput" where
  "decryptBytesWithMode ciphertext keyHex mode =
     (if mode = ECB then
        (case ecb_decrypt_loop ciphertext keyHex [] None of
           Inl e \<Rightarrow> Inl e
         | Inr (blocks, firstBlockResult) \<Rightarrow>
             Inr \<lparr> dec_output = concatByteChunks blocks,
                   dec_firstBlockResult = firstBlockResult \<rparr>)
      else if length ciphertext < 16
      then Inl (JsError ''Ciphertext must include an 8-byte IV/nonce.'')
      else
        (let iv = take 8 ciphertext;
             body = drop 8 ciphertext
         in case (if mode = CBC then cbc_decrypt_loop body keyHex iv [] None
                  else if mode = CFB then cfb_decrypt_loop body keyHex iv [] None
                  else if mode = OFB then ofb_decrypt_loop body keyHex iv [] None
                  else ctr_decrypt_loop body keyHex iv [] None) of
              Inl e \<Rightarrow> Inl e
            | Inr (blocks, firstBlockResult) \<Rightarrow>
                Inr \<lparr> dec_output = concatByteChunks blocks,
                      dec_firstBlockResult = firstBlockResult \<rparr>))"

text \<open>
  The two branches of \<^verbatim>\<open>runTextProcess\<close> between the decoding of the input and the
  display of the result: \<open>textBytes\<close> is \<^verbatim>\<open>textToUtf8Bytes(textInput)\<close> and
  \<open>sourceBytes\<close> the decoded ciphertext. The same steps make up \<^verbatim>\<open>runFileProcess\<close>.
\<close>

definition runTextProcess_encrypt ::
  "bytes \<Rightarrow> string \<Rightarrow> DesMode \<Rightarrow> bytes option \<Rightarrow> bytes \<Rightarrow> js_error + bytes" where
  "runTextProcess_encrypt textBytes keyHex desMode customIvBytes randomBlock =
     (let padded = padTo8Bytes textBytes
      in case encryptBytesWithMode padded keyHex desMode customIvBytes randomBlock of
           Inl e \<Rightarrow> Inl e
         | Inr r \<Rightarrow> Inr (enc_output r))"

definition runTextProcess_decrypt :: "bytes \<Rightarrow> string \<Rightarrow> DesMode \<Rightarrow> js_error + bytes" where
  "runTextProcess_decrypt sourceBytes keyHex desMode =
     (if length sourceBytes mod 8 \<noteq> 0
      then Inl (JsError ''Ciphertext length must be a multiple of 8 bytes.'')
      else case decryptBytesWithMode sourceBytes keyHex desMode of
             Inl e \<Rightarrow> Inl e
           | Inr r \<Rightarrow> Inr (unpadPkcs (dec_output r)))"

section \<open>Notions used in the statements\<close>

text \<open>A bit array whose entries are all 0 or 1.\<close>

definition isBits :: "Bits \<Rightarrow> bool" where
  "isBits bits = list_all (\<lambda>b. b \<le> 1) bits"

text \<open>Strings of hexadecimal digits: of either case, and of the lowercase digits only.\<close>

definition isHexString :: "string \<Rightarrow> bool" where
  "isHexString s = list_all (\<lambda>c. hexDigitValue c \<noteq> None) s"

definition isLowerHex :: "string \<Rightarrow> bool" where
  "isLowerHex s = list_all (\<lambda>c. c \<in> set hexLookup) s"

text \<open>A string of lowercase hexadecimal digits that holds exactly \<open>n\<close> bits.\<close>

definition hexOfWidth :: "nat \<Rightarrow> string \<Rightarrow> bool" where
  "hexOfWidth n s \<longleftrightarrow> length s * 4 = n \<and> isLowerHex s"

text \<open>Lists whose length is a multiple of four, by recursion in steps of four.\<close>

fun quads :: "'a list \<Rightarrow> bool" where
  "quads (a # b # c # d # rest) = quads rest"
| "quads [] = True"
| "quads _ = False"

text \<open>
  The record that the key schedule holds for round \<open>i + j + 1\<close>, when it starts from the
  registers \<open>c\<close> and \<open>d\<close> with the shift amounts \<open>sched\<close>: both registers rotated by the
  sum of the first \<open>j + 1\<close> shift amounts.
\<close>

definition schedule_round :: "nat list \<Rightarrow> nat \<Rightarrow> Bits \<Rightarrow> Bits \<Rightarrow> nat \<Rightarrow> KeyScheduleRound" where
  "schedule_round sched i c d j =
     (let total = sum_list (take (j + 1) sched);
          cj = leftShift c total;
          dj = leftShift d total
      in \<lparr> ks_round = i + j + 1, ks_shifts = sched ! j, ks_c = bitsToHex cj,
            ks_d = bitsToHex dj, ks_subKey = bitsToHex (permute (cj @ dj) PC2_TABLE) \<rparr>)"

text \<open>The 56 bits that \<^verbatim>\<open>generate_subkeys\<close> obtains from the key by PC-1.\<close>

definition key_registers :: "string \<Rightarrow> Bits" where
  "key_registers keyHex = permute (hexToBits (take 16 (padEnd keyHex 16 (CHR ''0''))) 64) PC1_TABLE"

text \<open>
  The output of the F function, and one Feistel round on a pair of halves; the subkey
  sequence that \<^verbatim>\<open>runCore\<close> applies; and the 64 bits that \<^verbatim>\<open>runCore\<close> writes out.
\<close>

definition f_out :: "Bits \<Rightarrow> Bits \<Rightarrow> Bits" where
  "f_out right subKey = (case f_function right subKey of Inr f \<Rightarrow> f_pBoxResult f | Inl e \<Rightarrow> [])"

fun feistel_step :: "Bits \<times> Bits \<Rightarrow> string \<Rightarrow> Bits \<times> Bits" where
  "feistel_step (l, r) subKeyHex = (r, xorBits l (f_out r (hexToBits subKeyHex 48)))"

definition core_bits :: "Bits \<Rightarrow> string list \<Rightarrow> Bits" where
  "core_bits block seq =
     (let ip = initial_permutation block;
          s = foldl feistel_step (take 32 ip, drop 32 ip) seq
      in final_permutation (snd s @ fst s))"

definition key_sequence :: "string \<Rightarrow> des_mode \<Rightarrow> string list" where
  "key_sequence keyHex mode =
     (if mode = Encrypt then subKeys (generate_subkeys keyHex)
      else rev (subKeys (generate_subkeys keyHex)))"

definition halves_ok :: "Bits \<times> Bits \<Rightarrow> bool" where
  "halves_ok s \<longleftrightarrow> length (fst s) = 32 \<and> length (snd s) = 32 \<and> isBits (fst s) \<and> isBits (snd s)"

text \<open>
  Encrypting a block and decrypting the ciphertext with the same key, as the test suite
  does: \<^verbatim>\<open>des_decrypt(des_encrypt(block, key).outputHex, key).outputHex\<close>.
\<close>

definition des_roundtrip :: "string \<Rightarrow> string \<Rightarrow> js_error + string" where
  "des_roundtrip block keyHex =
     (case des_encrypt block keyHex of
        Inl e \<Rightarrow> Inl e
      | Inr e \<Rightarrow> output_of (des_decrypt (outputHex e) keyHex))"

text \<open>
  The 16 characters that the cipher reads from a block and from a key of any length: the
  block padded with \<^verbatim>\<open>0\<close> on the left and cut to its last 16 characters, the key padded
  with \<^verbatim>\<open>0\<close> on the right and cut to its first 16 characters.
\<close>

definition blockWindow :: "string \<Rightarrow> string" where
  "blockWindow s = (let p = padStart s 16 (CHR ''0'') in drop (length p - 16) p)"

definition keyWindow :: "string \<Rightarrow> string" where
  "keyWindow k = take 16 (padEnd k 16 (CHR ''0''))"

text \<open>
  The two failures of the mode layer that the specification names, as the errors with
  the messages that the source raises.
\<close>

definition LengthError :: js_error where
  "LengthError = JsError ''Ciphertext length must be a multiple of 8 bytes.''"

definition MissingIvError :: js_error where
  "MissingIvError = JsError ''Ciphertext must include an 8-byte IV/nonce.''"

text \<open>
  The output of the correct cipher and of a variant for a plaintext and a key, and the
  three results that a diagnosis can have: the answer is correct, it matches a pattern
  of the catalog, or it matches none.
\<close>

definition expected_output :: "string \<Rightarrow> string \<Rightarrow> string" where
  "expected_output p k = (case des_encrypt p k of Inr res \<Rightarrow> outputHex res | Inl e \<Rightarrow> [])"

definition variant_output :: "string \<Rightarrow> string \<Rightarrow> Pattern \<Rightarrow> string" where
  "variant_output p k pattern =
     (case runVariant p k (p_options pattern) of Inr out \<Rightarrow> out | Inl e \<Rightarrow> [])"

definition correct_result :: "string \<Rightarrow> string \<Rightarrow> DiagnosisResult" where
  "correct_result expected s =
     \<lparr> matchedPattern = Some ''correct'', message = ''Answer matches expected ciphertext.'',
       expectedOutput = expected, studentOutput = s, score = 1, tags = [''correct''] \<rparr>"

definition matched_result :: "Pattern \<Rightarrow> string \<Rightarrow> string \<Rightarrow> DiagnosisResult" where
  "matched_result pattern expected s =
     \<lparr> matchedPattern = Some (code pattern), message = description pattern,
       expectedOutput = expected, studentOutput = s, score = credit pattern,
       tags = [''incorrect'', code pattern] \<rparr>"

definition unclassified_result :: "string \<Rightarrow> string \<Rightarrow> DiagnosisResult" where
  "unclassified_result expected s =
     \<lparr> matchedPattern = None,
       message = ''No known mistake pattern matched. Likely multiple or different errors.'',
       expectedOutput = expected, studentOutput = s, score = 0,
       tags = [''incorrect'', ''unclassified''] \<rparr>"

text \<open>
  The loop of \<^verbatim>\<open>s_box_substitution\<close> once more, walking down the list of boxes next to
  the list of chunks instead of indexing the table at every turn. It computes the same
  result and is the equation by which the substitution is evaluated.
\<close>

fun s_box_walk :: "Bits list \<Rightarrow> nat list list list \<Rightarrow> Bits \<Rightarrow> js_error + Bits" where
  "s_box_walk [] boxes out = Inr out"
| "s_box_walk (chunk # chunks) [] out = Inl JsTypeError"
| "s_box_walk (chunk # chunks) (box # boxes) out =
     (let row = (push_bit 1 (bitAt chunk 0)) OR bitAt chunk 5;
          column = (push_bit 3 (bitAt chunk 1)) OR (push_bit 2 (bitAt chunk 2))
                     OR (push_bit 1 (bitAt chunk 3)) OR bitAt chunk 4
      in if row < length box
         then let sValue = bitAt (box ! row) column
              in s_box_walk chunks boxes
                   (out @ [(drop_bit 3 sValue) AND 1, (drop_bit 2 sValue) AND 1,
                           (drop_bit 1 sValue) AND 1, sValue AND 1])
         else Inl JsTypeError)"

text \<open>
  The common shape of the ten loops of the mode layer: \<open>block_loop\<close> is the loop, and
  its argument \<open>body\<close> is the part of a turn that differs between the modes. From the
  chaining value and the slice it computes the block pushed, the cipher result and the
  next chaining value. Each loop of the model is \<open>block_loop\<close> at the body of its mode.
\<close>

function block_loop ::
  "(bytes \<Rightarrow> bytes \<Rightarrow> js_error + (bytes \<times> DESResult \<times> bytes)) \<Rightarrow> bytes \<Rightarrow> bytes
     \<Rightarrow> bytes list \<Rightarrow> DESResult option \<Rightarrow> js_error + (bytes list \<times> DESResult option)" where
  "block_loop body chain rest blocks firstBlockResult =
     (if rest = [] then Inr (blocks, firstBlockResult)
      else case body chain (take 8 rest) of
             Inl e \<Rightarrow> Inl e
           | Inr (out, res, chain') \<Rightarrow>
               block_loop body chain' (drop 8 rest) (blocks @ [out])
                 (getFirst firstBlockResult res))"
  by pat_completeness auto
termination
  by (relation "measure (\<lambda>(body, chain, rest, blocks, firstBlockResult). length rest)") auto

declare block_loop.simps [simp del]

definition ecb_encrypt_body :: "string \<Rightarrow> bytes \<Rightarrow> bytes \<Rightarrow> js_error + (bytes \<times> DESResult \<times> bytes)" where
  "ecb_encrypt_body keyHex chain block =
     (case encryptBlock block keyHex of
        Inl e \<Rightarrow> Inl e
      | Inr (bs, res) \<Rightarrow> Inr (bs, res, chain))"

definition cbc_encrypt_body :: "string \<Rightarrow> bytes \<Rightarrow> bytes \<Rightarrow> js_error + (bytes \<times> DESResult \<times> bytes)" where
  "cbc_encrypt_body keyHex prev block =
     (let xored = xorBlocks block prev
      in case encryptBlock xored keyHex of
           Inl e \<Rightarrow> Inl e
         | Inr (bs, res) \<Rightarrow> Inr (bs, res, bs))"

definition cfb_encrypt_body :: "string \<Rightarrow> bytes \<Rightarrow> bytes \<Rightarrow> js_error + (bytes \<times> DESResult \<times> bytes)" where
  "cfb_encrypt_body keyHex feedback block =
     (case encryptBlock feedback keyHex of
        Inl e \<Rightarrow> Inl e
      | Inr (keystream, res) \<Rightarrow>
          (let cipherBlock = xorBlocks block keystream
           in Inr (cipherBlock, res, cipherBlock)))"

definition ofb_encrypt_body :: "string \<Rightarrow> bytes \<Rightarrow> bytes \<Rightarrow> js_error + (bytes \<times> DESResult \<times> bytes)" where
  "ofb_encrypt_body keyHex ofb block =
     (case encryptBlock ofb keyHex of
        Inl e \<Rightarrow> Inl e
      | Inr (keystream, res) \<Rightarrow>
          (let cipherBlock = xorBlocks block keystream
           in Inr (cipherBlock, res, keystream)))"

definition ctr_encrypt_body :: "string \<Rightarrow> bytes \<Rightarrow> bytes \<Rightarrow> js_error + (bytes \<times> DESResult \<times> bytes)" where
  "ctr_encrypt_body keyHex counter block =
     (case encryptBlock counter keyHex of
        Inl e \<Rightarrow> Inl e
      | Inr (keystream, res) \<Rightarrow>
          (let cipherBlock = xorBlocks block keystream
           in Inr (cipherBlock, res, incrementCounter counter)))"

definition ecb_decrypt_body :: "string \<Rightarrow> bytes \<Rightarrow> bytes \<Rightarrow> js_error + (bytes \<times> DESResult \<times> bytes)" where
  "ecb_decrypt_body keyHex chain block =
     (case decryptBlock block keyHex of
        Inl e \<Rightarrow> Inl e
      | Inr (bs, res) \<Rightarrow> Inr (bs, res, chain))"

definition cbc_decrypt_body :: "string \<Rightarrow> bytes \<Rightarrow> bytes \<Rightarrow> js_error + (bytes \<times> DESResult \<times> bytes)" where
  "cbc_decrypt_body keyHex prev block =
     (case decryptBlock block keyHex of
        Inl e \<Rightarrow> Inl e
      | Inr (decrypted, res) \<Rightarrow>
          (let plainBlock = xorBlocks decrypted prev
           in Inr (plainBlock, res, block)))"

definition cfb_decrypt_body :: "string \<Rightarrow> bytes \<Rightarrow> bytes \<Rightarrow> js_error + (bytes \<times> DESResult \<times> bytes)" where
  "cfb_decrypt_body keyHex feedback block =
     (case encryptBlock feedback keyHex of
        Inl e \<Rightarrow> Inl e
      | Inr (keystream, res) \<Rightarrow>
          (let plainBlock = xorBlocks block keystream
           in Inr (plainBlock, res, block)))"

definition ofb_decrypt_body :: "string \<Rightarrow> bytes \<Rightarrow> bytes \<Rightarrow> js_error + (bytes \<times> DESResult \<times> bytes)" where
  "ofb_decrypt_body keyHex ofb block =
     (case encryptBlock ofb keyHex of
        Inl e \<Rightarrow> Inl e
      | Inr (keystream, res) \<Rightarrow>
          (let plainBlock = xorBlocks block keystream
           in Inr (plainBlock, res, keystream)))"

definition ctr_decrypt_body :: "string \<Rightarrow> bytes \<Rightarrow> bytes \<Rightarrow> js_error + (bytes \<times> DESResult \<times> bytes)" where
  "ctr_decrypt_body keyHex counter block =
     (case encryptBlock counter keyHex of
        Inl e \<Rightarrow> Inl e
      | Inr (keystream, res) \<Rightarrow>
          (let plainBlock = xorBlocks block keystream
           in Inr (plainBlock, res, incrementCounter counter)))"


section \<open>Bits, hexadecimal digits and permutations\<close>

lemma chunkBits_Nil: "chunkBits [] sz = Some []"
  by (simp add: chunkBits.simps)

lemma chunkBits_step:
  "bits \<noteq> [] \<Longrightarrow> 0 < sz \<Longrightarrow>
   chunkBits bits sz = map_option (\<lambda>chunks. take sz bits # chunks) (chunkBits (drop sz bits) sz)"
  by (subst chunkBits.simps) simp

lemma chunkBits_exact:
  "0 < sz \<Longrightarrow> length bits = n * sz \<Longrightarrow>
   \<exists>cs. chunkBits bits sz = Some cs \<and> length cs = n \<and> concat cs = bits
        \<and> (\<forall>c \<in> set cs. length c = sz)"
proof (induction n arbitrary: bits)
  case 0
  then show ?case by (simp add: chunkBits_Nil)
next
  case (Suc n)
  from Suc.prems have ne: "bits \<noteq> []" by auto
  from Suc.prems have "length (drop sz bits) = n * sz" by simp
  from Suc.IH [OF Suc.prems(1) this] obtain cs where
    cs: "chunkBits (drop sz bits) sz = Some cs" "length cs = n" "concat cs = drop sz bits"
        "\<forall>c \<in> set cs. length c = sz" by blast
  from Suc.prems have "length (take sz bits) = sz" by simp
  with cs ne Suc.prems(1) show ?case
    by (simp add: chunkBits_step)
qed

lemma chunkBits_total: "0 < sz \<Longrightarrow> chunkBits bits sz \<noteq> None"
proof (induction bits sz rule: chunkBits.induct)
  case (1 bits sz)
  show ?case
  proof (cases "bits = []")
    case True
    then show ?thesis by (simp add: chunkBits_Nil)
  next
    case False
    with 1 show ?thesis by (simp add: chunkBits_step)
  qed
qed

lemma bitsToHex_Nil: "bitsToHex [] = []"
  by (simp add: bitsToHex_def chunkBits_Nil)

lemma bitsToHex_Cons4:
  "bitsToHex (a # b # c # d # rest) = toHexDigit [a, b, c, d] @ bitsToHex rest"
proof -
  obtain cs where "chunkBits rest 4 = Some cs"
    using chunkBits_total [of 4 rest] by auto
  then show ?thesis
    by (simp add: bitsToHex_def chunkBits_step)
qed

lemma bit_cases: "b \<le> (1::nat) \<Longrightarrow> b = 0 \<or> b = 1"
  by arith

lemma toHexDigit_nibble:
  assumes "a \<le> 1" "b \<le> 1" "c \<le> 1" "d \<le> 1"
  shows "\<exists>ch. toHexDigit [a, b, c, d] = [ch] \<and> ch \<in> set hexLookup
            \<and> nibbleBits (lowerChar ch) = [a, b, c, d]"
  using assms [THEN bit_cases]
  by (elim disjE) (simp_all add: toHexDigit_def hexLookup_def nibbleBits_def lowerChar_def hexDigitValue_def)

lemma quads_iff: "quads xs \<longleftrightarrow> length xs mod 4 = 0"
  by (induction xs rule: quads.induct) simp_all

lemma isBits_simps [simp]:
  "isBits []" "isBits (b # bs) \<longleftrightarrow> b \<le> 1 \<and> isBits bs"
  "isBits (xs @ ys) \<longleftrightarrow> isBits xs \<and> isBits ys"
  by (simp_all add: isBits_def)

lemma isBits_nth: "isBits bits \<Longrightarrow> i < length bits \<Longrightarrow> bits ! i \<le> 1"
  by (simp add: isBits_def list_all_length)

lemma isBits_take: "isBits bits \<Longrightarrow> isBits (take n bits)"
  by (auto simp: isBits_def list_all_iff dest: in_set_takeD)

lemma isBits_drop: "isBits bits \<Longrightarrow> isBits (drop n bits)"
  by (auto simp: isBits_def list_all_iff dest: in_set_dropD)

lemma and_one_le: "(n::nat) AND 1 \<le> 1"
  by (simp add: and_one_eq)

lemma isBits_nibbleBits: "isBits (nibbleBits c)"
  by (simp only: nibbleBits_def Let_def isBits_simps and_one_le simp_thms)

lemma length_nibbleBits: "length (nibbleBits c) = 4"
  by (simp add: nibbleBits_def Let_def)

lemma isBits_concat_nibbles: "isBits (concat (map nibbleBits s))"
  by (induction s) (simp_all add: isBits_nibbleBits)

lemma length_concat_nibbles: "length (concat (map nibbleBits s)) = 4 * length s"
  by (induction s) (simp_all add: length_nibbleBits)

lemma bits_of_bitsToHex:
  "quads bits \<Longrightarrow> isBits bits \<Longrightarrow>
   concat (map nibbleBits (toLowerCase (bitsToHex bits))) = bits
   \<and> length (bitsToHex bits) * 4 = length bits \<and> isLowerHex (bitsToHex bits)"
proof (induction bits rule: quads.induct)
  case (1 a b c d rest)
  then have r: "concat (map nibbleBits (toLowerCase (bitsToHex rest))) = rest"
    "length (bitsToHex rest) * 4 = length rest" "isLowerHex (bitsToHex rest)" by simp_all
  from 1 obtain ch where ch: "toHexDigit [a, b, c, d] = [ch]" "ch \<in> set hexLookup"
      "nibbleBits (lowerChar ch) = [a, b, c, d]"
    using toHexDigit_nibble [of a b c d] by auto
  with r show ?case
    by (simp add: bitsToHex_Cons4 toLowerCase_def isLowerHex_def)
qed (simp_all add: bitsToHex_Nil toLowerCase_def isLowerHex_def)

lemma hexToBits_exact:
  assumes "sz = 4 * length hex"
  shows "hexToBits hex sz = concat (map nibbleBits (toLowerCase hex))"
proof -
  have p: "padStart (toLowerCase hex) (sz div 4) (CHR ''0'') = toLowerCase hex"
    using assms by (simp add: padStart_def toLowerCase_def)
  have l: "length (concat (map nibbleBits (toLowerCase hex))) = sz"
    using assms length_concat_nibbles [of "toLowerCase hex"] by (simp add: toLowerCase_def)
  show ?thesis
    unfolding hexToBits_def p Let_def l by (simp add: sliceFrom_def)
qed

lemma hexToBits_bitsToHex:
  assumes "length bits mod 4 = 0" "isBits bits"
  shows "hexToBits (bitsToHex bits) (length bits) = bits"
proof -
  from assms have q: "quads bits" by (simp add: quads_iff)
  note b = bits_of_bitsToHex [OF q assms(2)]
  from b have "length bits = 4 * length (bitsToHex bits)" by simp
  from hexToBits_exact [OF this] b show ?thesis by simp
qed

lemma char_eq_char_of: "c = char_of (n::nat) \<longleftrightarrow> take_bit 8 n = of_char c"
  using char_of_eq_iff [of n c] by (simp only: eq_commute [of c])

lemma hexDigit_cases:
  assumes "hexDigitValue c \<noteq> None"
  shows "c \<in> set ''0123456789abcdefABCDEF''"
proof -
  define n where "n = (of_char c :: nat)"
  have c: "c = char_of n" by (simp add: n_def)
  from assms have "(48 \<le> n \<and> n \<le> 57) \<or> (97 \<le> n \<and> n \<le> 102) \<or> (65 \<le> n \<and> n \<le> 70)"
    by (auto simp: hexDigitValue_def Let_def n_def split: if_splits)
  then have "n \<in> {48,49,50,51,52,53,54,55,56,57,97,98,99,100,101,102,65,66,67,68,69,70}"
    by (simp; arith)
  then show ?thesis unfolding c
    by (elim insertE emptyE) (simp_all add: char_of_eq_iff)
qed

lemma toHexDigit_of_hexDigit:
  assumes "hexDigitValue c \<noteq> None"
  shows "toHexDigit (nibbleBits (lowerChar c)) = [lowerChar c]"
  using hexDigit_cases [OF assms]
  by (auto simp: toHexDigit_def hexLookup_def nibbleBits_def lowerChar_def hexDigitValue_def
        char_of_eq_iff char_eq_char_of)

lemma bitsToHex_nibbles_append:
  "bitsToHex (nibbleBits c @ rest) = toHexDigit (nibbleBits c) @ bitsToHex rest"
  by (simp add: nibbleBits_def Let_def bitsToHex_Cons4)

lemma bitsToHex_concat_nibbles:
  "isHexString hex \<Longrightarrow> bitsToHex (concat (map nibbleBits (toLowerCase hex))) = toLowerCase hex"
  by (induction hex)
     (simp_all add: bitsToHex_Nil toLowerCase_def isHexString_def bitsToHex_nibbles_append
        toHexDigit_of_hexDigit)

lemma bitsToHex_hexToBits:
  assumes "isHexString hex"
  shows "bitsToHex (hexToBits hex (4 * length hex)) = toLowerCase hex"
  by (simp add: hexToBits_exact bitsToHex_concat_nibbles assms)

lemma bitAt_le: "isBits bits \<Longrightarrow> bitAt bits i \<le> 1"
  using isBits_nth [of bits i] by (simp add: bitAt_def)

lemma mod2_le: "(n::nat) mod 2 \<le> Suc 0"
  by arith

lemma length_permute [simp]: "length (permute bits table) = length table"
  by (simp add: permute_def)

lemma isBits_permute:
  assumes "isBits bits"
  shows "isBits (permute bits table)"
  using bitAt_le [OF assms] by (auto simp: permute_def isBits_def list_all_iff)

lemma permute_permute:
  assumes t2: "\<forall>j \<in> set t2. 1 \<le> j \<and> j \<le> length t1"
    and t1: "\<forall>i \<in> set t1. 1 \<le> i \<and> i \<le> length xs"
  shows "permute (permute xs t1) t2 = map (\<lambda>k. xs ! k) (map (\<lambda>j. t1 ! (j - 1) - 1) t2)"
proof -
  have "(if j = 0 then 0 else bitAt (permute xs t1) (j - 1)) = xs ! (t1 ! (j - 1) - 1)"
    if j: "j \<in> set t2" for j
  proof -
    from t2 j have j1: "1 \<le> j" "j - 1 < length t1" by auto
    then have "t1 ! (j - 1) \<in> set t1" by simp
    with t1 have i: "1 \<le> t1 ! (j - 1)" "t1 ! (j - 1) - 1 < length xs" by auto
    from j1 i show ?thesis
      by (simp add: permute_def bitAt_def)
  qed
  then show ?thesis
    by (simp add: permute_def [of "permute xs t1"] comp_def)
qed

lemma IP_range: "\<forall>i \<in> set IP_TABLE. 1 \<le> i \<and> i \<le> 64"
  by (simp add: IP_TABLE_def)

lemma FP_range: "\<forall>i \<in> set FP_TABLE. 1 \<le> i \<and> i \<le> 64"
  by (simp add: FP_TABLE_def)

lemma length_IP [simp]: "length IP_TABLE = 64"
  by (simp add: IP_TABLE_def)

lemma length_FP [simp]: "length FP_TABLE = 64"
  by (simp add: FP_TABLE_def)

lemma IP_FP_indices: "map (\<lambda>j. IP_TABLE ! (j - 1) - 1) FP_TABLE = [0..<64]"
  by code_simp

lemma FP_IP_indices: "map (\<lambda>j. FP_TABLE ! (j - 1) - 1) IP_TABLE = [0..<64]"
  by code_simp

lemma final_initial:
  assumes "length block = 64"
  shows "final_permutation (initial_permutation block) = block"
proof -
  have "permute (permute block IP_TABLE) FP_TABLE
          = map (\<lambda>k. block ! k) (map (\<lambda>j. IP_TABLE ! (j - 1) - 1) FP_TABLE)"
    by (rule permute_permute) (use assms IP_range FP_range in simp_all)
  also have "\<dots> = map (\<lambda>k. block ! k) [0..<length block]"
    by (simp only: IP_FP_indices assms)
  finally show ?thesis
    by (simp add: final_permutation_def initial_permutation_def map_nth)
qed

lemma initial_final:
  assumes "length block = 64"
  shows "initial_permutation (final_permutation block) = block"
proof -
  have "permute (permute block FP_TABLE) IP_TABLE
          = map (\<lambda>k. block ! k) (map (\<lambda>j. FP_TABLE ! (j - 1) - 1) IP_TABLE)"
    by (rule permute_permute) (use assms IP_range FP_range in simp_all)
  also have "\<dots> = map (\<lambda>k. block ! k) [0..<length block]"
    by (simp only: FP_IP_indices assms)
  finally show ?thesis
    by (simp add: final_permutation_def initial_permutation_def map_nth)
qed

lemma length_xorBits [simp]: "length (xorBits a b) = length a"
  by (simp add: xorBits_def)

lemma isBits_xorBits: "isBits (xorBits a b)"
  by (simp add: xorBits_def isBits_def list_all_iff mod2_le)

lemma xor_bit_cancel:
  assumes "l \<le> (1::nat)" "q \<le> 1"
  shows "((((l XOR q) AND 1) XOR q) AND 1) = l"
  using assms [THEN bit_cases] by (elim disjE) simp_all

lemma xorBits_cancel:
  assumes "isBits l" "isBits p"
  shows "xorBits (xorBits l p) p = l"
proof (rule nth_equalityI)
  show "length (xorBits (xorBits l p) p) = length l" by simp
next
  fix i assume "i < length (xorBits (xorBits l p) p)"
  then have i: "i < length l" by simp
  have "l ! i \<le> 1" "bitAt p i \<le> 1"
    by (rule isBits_nth [OF assms(1) i], rule bitAt_le [OF assms(2)])
  from xor_bit_cancel [OF this] i show "xorBits (xorBits l p) p ! i = l ! i"
    by (simp add: xorBits_def)
qed

lemma length_S_BOXES: "length S_BOXES = 8"
  by (simp add: S_BOXES_def)

lemma length_S_BOX_rows: "index < 8 \<Longrightarrow> length (S_BOXES ! index) = 4"
proof -
  assume "index < 8"
  then have "index \<in> {0, 1, 2, 3, 4, 5, 6, 7}" by (simp; arith)
  then show ?thesis
    by (elim insertE emptyE) (simp_all add: S_BOXES_def)
qed

lemma row_bound:
  assumes "a \<le> (1::nat)" "b \<le> 1"
  shows "(push_bit 1 a) OR b < 4"
  using assms [THEN bit_cases] by (elim disjE) simp_all

lemma s_box_loop_total:
  "\<forall>c \<in> set chunks. isBits c \<Longrightarrow> index + length chunks \<le> 8 \<Longrightarrow>
   \<exists>out'. s_box_loop chunks index out = Inr (out @ out')
         \<and> length out' = 4 * length chunks \<and> isBits out'"
proof (induction chunks arbitrary: index out)
  case Nil
  then show ?case by simp
next
  case (Cons chunk chunks)
  let ?row = "(push_bit 1 (bitAt chunk 0)) OR bitAt chunk 5"
  let ?column = "(push_bit 3 (bitAt chunk 1)) OR (push_bit 2 (bitAt chunk 2))
                     OR (push_bit 1 (bitAt chunk 3)) OR bitAt chunk 4"
  let ?sValue = "bitAt (S_BOXES ! index ! ?row) ?column"
  let ?new = "[(drop_bit 3 ?sValue) AND 1, (drop_bit 2 ?sValue) AND 1,
               (drop_bit 1 ?sValue) AND 1, ?sValue AND 1]"
  from Cons.prems have c: "isBits chunk" and idx: "index < 8" by simp_all
  have row: "?row < 4"
    by (rule row_bound; rule bitAt_le [OF c])
  from idx row have guard: "index < length S_BOXES \<and> ?row < length (S_BOXES ! index)"
    by (simp add: length_S_BOXES length_S_BOX_rows)
  from Cons.prems have "\<forall>c \<in> set chunks. isBits c" "Suc index + length chunks \<le> 8"
    by simp_all
  from Cons.IH [OF this, of "out @ ?new"] obtain out' where
    o: "s_box_loop chunks (Suc index) (out @ ?new) = Inr ((out @ ?new) @ out')"
       "length out' = 4 * length chunks" "isBits out'" by blast
  have new: "isBits ?new"
    by (simp only: isBits_simps and_one_le simp_thms)
  have "s_box_loop (chunk # chunks) index out = s_box_loop chunks (Suc index) (out @ ?new)"
    using guard by (simp only: s_box_loop.simps Let_def simp_thms if_True Suc_eq_plus1)
  with o new show ?case
    by (intro exI [of _ "?new @ out'"]) (simp del: One_nat_def)
qed

lemma s_box_substitution_total:
  assumes "length bits = 48" "isBits bits"
  shows "\<exists>out. s_box_substitution bits = Inr out \<and> length out = 32 \<and> isBits out"
proof -
  from chunkBits_exact [of 6 bits 8] assms obtain cs where
    cs: "chunkBits bits 6 = Some cs" "length cs = 8" "concat cs = bits" by auto
  from cs(3) assms(2) have "\<forall>c \<in> set cs. isBits c"
    by (auto simp: isBits_def list_all_iff)
  from s_box_loop_total [OF this, of 0 "[]"] cs show ?thesis
    by (auto simp: s_box_substitution_def)
qed

lemma length_E [simp]: "length E_TABLE = 48"
  by (simp add: E_TABLE_def)

lemma length_P [simp]: "length P_TABLE = 32"
  by (simp add: P_TABLE_def)

lemma f_function_total:
  "\<exists>f. f_function right subKey = Inr f \<and> length (f_pBoxResult f) = 32 \<and> isBits (f_pBoxResult f)"
proof -
  let ?x = "xorBits (expansion_permutation right) subKey"
  have "length ?x = 48" "isBits ?x"
    by (simp_all add: expansion_permutation_def isBits_xorBits)
  from s_box_substitution_total [OF this] obtain out where
    "s_box_substitution ?x = Inr out" "isBits out" by blast
  then show ?thesis
    by (simp add: f_function_def Let_def p_box_permutation_def isBits_permute)
qed

lemma f_out_bits: "length (f_out right subKey) = 32" "isBits (f_out right subKey)"
  using f_function_total [of right subKey] by (auto simp: f_out_def)

lemma feistel_round_total:
  "\<exists>r. feistel_round left right subKey = Inr r \<and> r_left r = right
      \<and> r_right r = xorBits left (f_out right subKey)"
  using f_function_total [of right subKey] by (auto simp: feistel_round_def f_out_def)

lemma isBits_hexToBits: "isBits (hexToBits hex sz)"
  by (simp add: hexToBits_def Let_def sliceFrom_def isBits_drop isBits_concat_nibbles)

lemma length_hexToBits:
  assumes "sz mod 4 = 0"
  shows "length (hexToBits hex sz) = sz"
proof -
  let ?p = "padStart (toLowerCase hex) (sz div 4) (CHR ''0'')"
  have "sz div 4 \<le> length ?p" by (simp add: padStart_def)
  with assms have "sz \<le> 4 * length ?p" by arith
  then show ?thesis
    by (simp add: hexToBits_def Let_def sliceFrom_def length_concat_nibbles)
qed

lemma leftShift_rotate: "leftShift bits shift = rotate shift bits"
  by (cases "bits = []") (simp_all add: leftShift_def Let_def rotate_drop_take)

lemma leftShift_add: "leftShift (leftShift bits a) b = leftShift bits (a + b)"
  by (simp add: leftShift_rotate rotate_rotate add.commute)

lemma length_leftShift [simp]: "length (leftShift bits shift) = length bits"
  by (simp add: leftShift_rotate)

lemma isBits_leftShift: "isBits bits \<Longrightarrow> isBits (leftShift bits shift)"
  by (simp add: leftShift_rotate isBits_def list_all_iff)

lemma subkey_loop_closed:
  "subkey_loop sched i c d rounds keys =
     (rounds @ map (schedule_round sched i c d) [0..<length sched],
      keys @ map (\<lambda>j. ks_subKey (schedule_round sched i c d j)) [0..<length sched])"
proof (induction sched arbitrary: i c d rounds keys)
  case Nil
  then show ?case by simp
next
  case (Cons s rest)
  have step: "schedule_round (s # rest) i c d (Suc j)
                = schedule_round rest (i + 1) (leftShift c s) (leftShift d s) j" for j
    by (simp add: schedule_round_def Let_def leftShift_add)
  have first: "schedule_round (s # rest) i c d 0
     = \<lparr> ks_round = i + 1, ks_shifts = s, ks_c = bitsToHex (leftShift c s),
         ks_d = bitsToHex (leftShift d s),
         ks_subKey = bitsToHex (permute (leftShift c s @ leftShift d s) PC2_TABLE) \<rparr>"
    by (simp add: schedule_round_def Let_def)
  have upt: "[0..<length (s # rest)] = 0 # map Suc [0..<length rest]"
    by (simp add: upt_conv_Cons map_Suc_upt del: upt_Suc)
  show ?case
    unfolding upt
    by (simp add: Let_def Cons.IH step first comp_def del: upt_Suc)
qed

lemma round_loop_total:
  "\<exists>rd. round_loop seq i l r acc
           = Inr (fst (foldl feistel_step (l, r) seq), snd (foldl feistel_step (l, r) seq), acc @ rd)
        \<and> length rd = length seq"
proof (induction seq arbitrary: i l r acc)
  case Nil
  then show ?case by simp
next
  case (Cons k seq)
  from feistel_round_total [of l r "hexToBits k 48"] obtain res where
    res: "feistel_round l r (hexToBits k 48) = Inr res" "r_left res = r"
         "r_right res = xorBits l (f_out r (hexToBits k 48))" by blast
  let ?info = "\<lparr> ri_round = i + 1, ri_left = bitsToHex l, ri_right = bitsToHex r,
                    ri_subKey = k, ri_expanded = bitsToHex (r_expanded res),
                    ri_xorWithKey = bitsToHex (r_xorResult res),
                    ri_sBoxOutput = bitsToHex (r_sBoxResult res),
                    ri_pBoxOutput = bitsToHex (r_pBoxResult res),
                    ri_roundOutput = bitsToHex (r_left res @ r_right res) \<rparr>"
  from Cons.IH [of "i + 1" "r_left res" "r_right res" "acc @ [?info]"] obtain rd where
    rd: "round_loop seq (i + 1) (r_left res) (r_right res) (acc @ [?info])
           = Inr (fst (foldl feistel_step (r_left res, r_right res) seq),
                  snd (foldl feistel_step (r_left res, r_right res) seq), (acc @ [?info]) @ rd)"
        "length rd = length seq" by blast
  have "round_loop (k # seq) i l r acc
          = round_loop seq (i + 1) (r_left res) (r_right res) (acc @ [?info])"
    by (simp add: Let_def res(1))
  with rd res show ?case
    by (intro exI [of _ "?info # rd"]) simp
qed

lemma runCore_total:
  "\<exists>res. runCore inp keyHex mode = Inr res
        \<and> outputHex res = bitsToHex (core_bits (hexToBits inp 64) (key_sequence keyHex mode))
        \<and> res_subKeys res = key_sequence keyHex mode
        \<and> length (res_rounds res) = length (key_sequence keyHex mode)
        \<and> res_mode res = mode \<and> inputHex res = toLowerCase inp"
proof -
  let ?ip = "initial_permutation (hexToBits inp 64)"
  let ?seq = "key_sequence keyHex mode"
  from round_loop_total [of ?seq 0 "take 32 ?ip" "drop 32 ?ip" "[]"] obtain rd where
    "round_loop ?seq 0 (take 32 ?ip) (drop 32 ?ip) []
       = Inr (fst (foldl feistel_step (take 32 ?ip, drop 32 ?ip) ?seq),
              snd (foldl feistel_step (take 32 ?ip, drop 32 ?ip) ?seq), [] @ rd)"
    "length rd = length ?seq" by blast
  then show ?thesis
    by (simp add: runCore_def Let_def core_bits_def key_sequence_def)
qed

lemma feistel_step_ok: "halves_ok s \<Longrightarrow> halves_ok (feistel_step s k)"
  by (cases s) (simp add: halves_ok_def isBits_xorBits)

lemma foldl_feistel_ok: "halves_ok s \<Longrightarrow> halves_ok (foldl feistel_step s ks)"
  by (induction ks arbitrary: s) (simp_all add: feistel_step_ok)

lemma feistel_step_undo:
  assumes "halves_ok s"
  shows "feistel_step (prod.swap (feistel_step s k)) k = prod.swap s"
proof (cases s)
  case (Pair l r)
  with assms have "isBits l" by (simp add: halves_ok_def)
  from xorBits_cancel [OF this f_out_bits(2)] Pair show ?thesis by simp
qed

lemma foldl_feistel_undo:
  "halves_ok s \<Longrightarrow>
   foldl feistel_step (prod.swap (foldl feistel_step s ks)) (rev ks) = prod.swap s"
proof (induction ks rule: rev_induct)
  case Nil
  then show ?case by simp
next
  case (snoc k ks)
  from snoc.prems have "halves_ok (foldl feistel_step s ks)" by (rule foldl_feistel_ok)
  from feistel_step_undo [OF this, of k] snoc show ?case by simp
qed

lemma halves_of_block:
  assumes "length block = 64" "isBits block"
  shows "halves_ok (take 32 block, drop 32 block)"
  using assms by (simp add: halves_ok_def isBits_take isBits_drop)

lemma core_bits_ok:
  assumes "length block = 64" "isBits block"
  shows "length (core_bits block ks) = 64" "isBits (core_bits block ks)"
proof -
  let ?ip = "initial_permutation block"
  have "length ?ip = 64" "isBits ?ip"
    using assms by (simp_all add: initial_permutation_def isBits_permute)
  then have "halves_ok (foldl feistel_step (take 32 ?ip, drop 32 ?ip) ks)"
    by (intro foldl_feistel_ok halves_of_block)
  then show "length (core_bits block ks) = 64" "isBits (core_bits block ks)"
    by (simp_all add: core_bits_def Let_def final_permutation_def isBits_permute halves_ok_def)
qed

lemma core_bits_inverse:
  assumes "length block = 64" "isBits block"
  shows "core_bits (core_bits block ks) (rev ks) = block"
proof -
  let ?ip = "initial_permutation block"
  let ?s0 = "(take 32 ?ip, drop 32 ?ip)"
  let ?sE = "foldl feistel_step ?s0 ks"
  have ip: "length ?ip = 64" "isBits ?ip"
    using assms by (simp_all add: initial_permutation_def isBits_permute)
  then have s0: "halves_ok ?s0" by (rule halves_of_block)
  then have sE: "halves_ok ?sE" by (rule foldl_feistel_ok)
  have x: "core_bits block ks = final_permutation (snd ?sE @ fst ?sE)"
    by (simp add: core_bits_def Let_def)
  from sE have len: "length (snd ?sE @ fst ?sE) = 64" by (simp add: halves_ok_def)
  have ip': "initial_permutation (core_bits block ks) = snd ?sE @ fst ?sE"
    unfolding x by (rule initial_final [OF len])
  from sE have split: "(take 32 (snd ?sE @ fst ?sE), drop 32 (snd ?sE @ fst ?sE)) = prod.swap ?sE"
    by (cases ?sE) (simp add: halves_ok_def)
  have "core_bits (core_bits block ks) (rev ks)
          = (let s = foldl feistel_step (prod.swap ?sE) (rev ks)
             in final_permutation (snd s @ fst s))"
    unfolding core_bits_def [of "core_bits block ks"] ip' Let_def split ..
  also have "\<dots> = final_permutation (take 32 ?ip @ drop 32 ?ip)"
    by (simp add: foldl_feistel_undo [OF s0] Let_def)
  also have "\<dots> = block"
    by (simp add: final_initial [OF assms(1)])
  finally show ?thesis .
qed

lemma length_SHIFT_SCHEDULE [simp]: "length SHIFT_SCHEDULE = 16"
  by (simp add: SHIFT_SCHEDULE_def)

lemma generate_subkeys_closed:
  "generate_subkeys keyHex =
     \<lparr> parityDroppedKey = bitsToHex (key_registers keyHex),
       ks_rounds = map (schedule_round SHIFT_SCHEDULE 0 (take 28 (key_registers keyHex))
                         (drop 28 (key_registers keyHex))) [0..<16],
       subKeys = map (\<lambda>j. ks_subKey (schedule_round SHIFT_SCHEDULE 0
                         (take 28 (key_registers keyHex)) (drop 28 (key_registers keyHex)) j))
                   [0..<16] \<rparr>"
  by (simp add: generate_subkeys_def Let_def subkey_loop_closed key_registers_def del: upt_Suc)

lemma length_subKeys [simp]: "length (subKeys (generate_subkeys keyHex)) = 16"
  by (simp add: generate_subkeys_closed del: upt_Suc)

lemma length_key_sequence [simp]: "length (key_sequence keyHex mode) = 16"
  by (simp add: key_sequence_def)

lemma key_sequence_Decrypt: "key_sequence keyHex Decrypt = rev (key_sequence keyHex Encrypt)"
  by (simp add: key_sequence_def)

lemma des_roundtrip_general:
  "\<exists>e d. des_encrypt block keyHex = Inr e \<and> des_decrypt (outputHex e) keyHex = Inr d
       \<and> outputHex d = bitsToHex (hexToBits block 64)
       \<and> res_subKeys d = rev (res_subKeys e)
       \<and> length (res_rounds e) = 16 \<and> length (res_rounds d) = 16"
proof -
  let ?b = "hexToBits block 64"
  let ?ks = "key_sequence keyHex Encrypt"
  let ?x = "core_bits ?b ?ks"
  have b: "length ?b = 64" "isBits ?b"
    by (simp_all add: length_hexToBits isBits_hexToBits)
  note x = core_bits_ok [OF b, of ?ks]
  from runCore_total [of block keyHex Encrypt] obtain e where
    e: "des_encrypt block keyHex = Inr e" "outputHex e = bitsToHex ?x"
       "res_subKeys e = ?ks" "length (res_rounds e) = 16"
    by (auto simp: des_encrypt_def)
  from runCore_total [of "outputHex e" keyHex Decrypt] obtain d where
    d: "des_decrypt (outputHex e) keyHex = Inr d"
       "outputHex d = bitsToHex (core_bits (hexToBits (outputHex e) 64) (rev ?ks))"
       "res_subKeys d = rev ?ks" "length (res_rounds d) = 16"
    by (auto simp: des_decrypt_def key_sequence_Decrypt)
  have "hexToBits (outputHex e) 64 = ?x"
    using hexToBits_bitsToHex [of ?x] x by (simp add: e(2))
  with d(2) have "outputHex d = bitsToHex ?b"
    by (simp add: core_bits_inverse [OF b])
  with e d show ?thesis by simp
qed


section \<open>Conversion between bits and hexadecimal digits\<close>

lemma hexDigitValue_lower_hex: "c \<in> set hexLookup \<Longrightarrow> hexDigitValue c \<noteq> None"
  by (simp add: hexLookup_def) (elim disjE; simp add: hexDigitValue_def)

lemma isLowerHex_isHexString: "isLowerHex s \<Longrightarrow> isHexString s"
  unfolding isLowerHex_def isHexString_def list_all_iff
  using hexDigitValue_lower_hex by blast

lemma lowerChar_lower_hex: "c \<in> set hexLookup \<Longrightarrow> lowerChar c = c"
  by (simp add: hexLookup_def) (elim disjE; simp add: lowerChar_def)

lemma toLowerCase_isLowerHex: "isLowerHex s \<Longrightarrow> toLowerCase s = s"
  by (simp add: isLowerHex_def toLowerCase_def list_all_iff lowerChar_lower_hex map_idI)




section \<open>The key schedule\<close>

lemma isBits_key_registers: "isBits (key_registers keyHex)"
  by (simp add: key_registers_def isBits_permute isBits_hexToBits)

lemma length_key_registers: "length (key_registers keyHex) = 56"
  by (simp add: key_registers_def PC1_TABLE_def)

lemma hexOfWidth_bitsToHex:
  assumes "length bits = n" "n mod 4 = 0" "isBits bits"
  shows "hexOfWidth n (bitsToHex bits)"
proof -
  from assms have "quads bits" by (simp add: quads_iff)
  from bits_of_bitsToHex [OF this assms(3)] assms(1) show ?thesis
    by (simp add: hexOfWidth_def)
qed

lemma schedule_round_subKey:
  assumes "isBits c" "isBits d"
  shows "hexOfWidth 48 (ks_subKey (schedule_round sched i c d j))"
proof -
  have "isBits (permute (leftShift c t @ leftShift d t) PC2_TABLE)" for t
    using assms by (simp add: isBits_permute isBits_leftShift)
  moreover have "length (permute xs PC2_TABLE) = 48" for xs
    by (simp add: PC2_TABLE_def)
  ultimately show ?thesis
    by (simp add: schedule_round_def Let_def hexOfWidth_bitsToHex)
qed

text \<open>
  C8. For every key, \<^verbatim>\<open>generate_subkeys\<close> returns 16 round records numbered 1 to 16 in
  this order, with the shift amounts of the schedule; each subkey is a string of 48 bits
  and the parity-dropped key one of 56 bits. The record at position \<open>j\<close> is the one of
  round \<open>j + 1\<close> of the generation (registers rotated by the first \<open>j + 1\<close> shift amounts),
  and the list of subkeys is the list of the records' subkeys: nothing is reversed.
\<close>

theorem generate_subkeys_shape:
  "length (ks_rounds (generate_subkeys keyHex)) = 16
   \<and> map ks_round (ks_rounds (generate_subkeys keyHex)) = [1..<17]
   \<and> map ks_shifts (ks_rounds (generate_subkeys keyHex)) = SHIFT_SCHEDULE
   \<and> subKeys (generate_subkeys keyHex) = map ks_subKey (ks_rounds (generate_subkeys keyHex))
   \<and> list_all (hexOfWidth 48) (subKeys (generate_subkeys keyHex))
   \<and> hexOfWidth 56 (parityDroppedKey (generate_subkeys keyHex))
   \<and> ks_rounds (generate_subkeys keyHex)
       = map (schedule_round SHIFT_SCHEDULE 0 (take 28 (key_registers keyHex))
                (drop 28 (key_registers keyHex))) [0..<16]"
proof -
  let ?c = "take 28 (key_registers keyHex)"
  let ?d = "drop 28 (key_registers keyHex)"
  have cd: "isBits ?c" "isBits ?d"
    by (simp_all add: isBits_take isBits_drop isBits_key_registers)
  have "map Suc [0..<16] = [1..<17]"
    unfolding map_Suc_upt by simp
  then have numbers:
    "map (\<lambda>j. ks_round (schedule_round SHIFT_SCHEDULE 0 ?c ?d j)) [0..<16] = [1..<17]"
    by (simp add: schedule_round_def Let_def del: upt_Suc)
  have "map (\<lambda>j. ks_shifts (schedule_round SHIFT_SCHEDULE 0 ?c ?d j)) [0..<16]
          = map (\<lambda>j. SHIFT_SCHEDULE ! j) [0..<length SHIFT_SCHEDULE]"
    by (simp add: schedule_round_def Let_def del: upt_Suc)
  then have shifts: "map (\<lambda>j. ks_shifts (schedule_round SHIFT_SCHEDULE 0 ?c ?d j)) [0..<16]
          = SHIFT_SCHEDULE"
    by (simp only: map_nth)
  have keys: "list_all (hexOfWidth 48)
                (map (\<lambda>j. ks_subKey (schedule_round SHIFT_SCHEDULE 0 ?c ?d j)) [0..<16])"
    unfolding list_all_iff by (auto simp del: upt_Suc intro: schedule_round_subKey [OF cd])
  have pd: "hexOfWidth 56 (bitsToHex (key_registers keyHex))"
    by (rule hexOfWidth_bitsToHex) (simp_all add: length_key_registers isBits_key_registers)
  from numbers shifts keys pd show ?thesis
    by (simp add: generate_subkeys_closed comp_def del: upt_Suc)
qed

theorem generate_subkeys_shape_witness:
  "length (ks_rounds (generate_subkeys ''133457799bbcdff1'')) = 16
   \<and> map ks_round (ks_rounds (generate_subkeys ''133457799bbcdff1'')) = [1..<17]
   \<and> list_all (hexOfWidth 48) (subKeys (generate_subkeys ''133457799bbcdff1''))
   \<and> hexOfWidth 56 (parityDroppedKey (generate_subkeys ''133457799bbcdff1''))"
  using generate_subkeys_shape [of "''133457799bbcdff1''"] by (elim conjE) (intro conjI)

section \<open>The single-block cipher\<close>

lemma s_box_loop_walk: "s_box_loop chunks index out = s_box_walk chunks (drop index S_BOXES) out"
proof (induction chunks arbitrary: index out)
  case Nil
  then show ?case by simp
next
  case (Cons chunk chunks)
  show ?case
  proof (cases "index < length S_BOXES")
    case False
    then show ?thesis by (simp add: Let_def)
  next
    case True
    then have "drop index S_BOXES = S_BOXES ! index # drop (Suc index) S_BOXES"
      by (simp add: Cons_nth_drop_Suc)
    with True Cons.IH [of "Suc index"] show ?thesis
      by (simp add: Let_def)
  qed
qed

lemma s_box_substitution_code [code]:
  "s_box_substitution bits =
     (case chunkBits bits 6 of
        Some chunks \<Rightarrow> s_box_walk chunks S_BOXES []
      | None \<Rightarrow> Inr [])"
  by (simp add: s_box_substitution_def s_box_loop_walk split: option.splits)

lemma vector_nist:
  "output_of (des_encrypt ''0123456789abcdef'' ''133457799bbcdff1'') = Inr ''85e813540f0ab405''"
  by code_simp

lemma vector_classroom_encrypt:
  "output_of (des_encrypt ''02468aceeca86420'' ''0f1571c947d9e859'') = Inr ''da02ce3a89ecac3b''"
  by code_simp

lemma vector_classroom_decrypt:
  "output_of (des_decrypt ''da02ce3a89ecac3b'' ''0f1571c947d9e859'') = Inr ''02468aceeca86420''"
  by code_simp

text \<open>
  C1. The cipher reproduces the published vectors: plaintext \<^verbatim>\<open>0123456789abcdef\<close> under
  the key \<^verbatim>\<open>133457799bbcdff1\<close> encrypts to \<^verbatim>\<open>85e813540f0ab405\<close>; plaintext
  \<^verbatim>\<open>02468aceeca86420\<close> under the key \<^verbatim>\<open>0f1571c947d9e859\<close> encrypts to
  \<^verbatim>\<open>da02ce3a89ecac3b\<close>, which decrypts to the plaintext again.
\<close>

theorem des_test_vectors:
  "output_of (des_encrypt ''0123456789abcdef'' ''133457799bbcdff1'') = Inr ''85e813540f0ab405''
   \<and> output_of (des_encrypt ''02468aceeca86420'' ''0f1571c947d9e859'') = Inr ''da02ce3a89ecac3b''
   \<and> output_of (des_decrypt ''da02ce3a89ecac3b'' ''0f1571c947d9e859'') = Inr ''02468aceeca86420''"
  using vector_nist vector_classroom_encrypt vector_classroom_decrypt by simp

lemma des_roundtrip_lower:
  "des_roundtrip block keyHex = Inr (bitsToHex (hexToBits block 64))"
  using des_roundtrip_general [of block keyHex]
  by (auto simp: des_roundtrip_def output_of_def)

lemma block_hex_lower:
  assumes "length block = 16" "isHexString block"
  shows "bitsToHex (hexToBits block 64) = toLowerCase block"
  using bitsToHex_hexToBits [OF assms(2)] assms(1) by simp

text \<open>
  C2, as the code has it. For every block of 16 hexadecimal digits, of either case, and
  every key, decrypting the encryption of the block gives the block in lowercase digits,
  hence the block itself when it has no uppercase digit. Both calls succeed, both run 16
  rounds, and the decryption applies the subkeys of the encryption in reverse order.
\<close>

theorem des_decrypt_inverts_encrypt:
  assumes "length block = 16" "isHexString block"
  shows "des_roundtrip block keyHex = Inr (toLowerCase block)
       \<and> (\<exists>e d. des_encrypt block keyHex = Inr e \<and> des_decrypt (outputHex e) keyHex = Inr d
              \<and> outputHex d = toLowerCase block
              \<and> res_subKeys d = rev (res_subKeys e)
              \<and> length (res_rounds e) = 16 \<and> length (res_rounds d) = 16)"
  using des_roundtrip_lower [of block keyHex] des_roundtrip_general [of block keyHex]
    block_hex_lower [OF assms] by simp

theorem des_decrypt_inverts_encrypt_witness:
  "length ''02468aceeca86420'' = 16 \<and> isHexString ''02468aceeca86420''
   \<and> des_roundtrip ''02468aceeca86420'' ''0f1571c947d9e859'' = Inr ''02468aceeca86420''"
  using des_decrypt_inverts_encrypt [of "''02468aceeca86420''" "''0f1571c947d9e859''"]
  by (simp add: isHexString_def hexDigitValue_def toLowerCase_def lowerChar_def)

text \<open>
  The claim C2 as it is stated fails for a block with an uppercase digit: the block
  \<^verbatim>\<open>ABCDEF0123456789\<close> comes back as \<^verbatim>\<open>abcdef0123456789\<close>.
\<close>

theorem des_roundtrip_counterexample:
  "des_roundtrip ''ABCDEF0123456789'' ''133457799bbcdff1'' = Inr ''abcdef0123456789''
   \<and> des_roundtrip ''ABCDEF0123456789'' ''133457799bbcdff1'' \<noteq> Inr ''ABCDEF0123456789''"
proof -
  have "isHexString ''ABCDEF0123456789''"
    by (simp add: isHexString_def hexDigitValue_def)
  from block_hex_lower [OF _ this]
  have "bitsToHex (hexToBits ''ABCDEF0123456789'' 64) = ''abcdef0123456789''"
    by (simp add: toLowerCase_def lowerChar_def char_eq_char_of char_of_eq_iff)
  then show ?thesis
    by (simp add: des_roundtrip_lower)
qed

lemma drop_concat_nibbles:
  "drop (4 * k) (concat (map nibbleBits xs)) = concat (map nibbleBits (drop k xs))"
proof (induction xs arbitrary: k)
  case Nil
  then show ?case by simp
next
  case (Cons x xs)
  show ?case
  proof (cases k)
    case 0
    then show ?thesis by simp
  next
    case (Suc k')
    with Cons.IH [of k'] show ?thesis
      by (simp add: length_nibbleBits)
  qed
qed

lemma lowerChar_zero: "lowerChar (CHR ''0'') = CHR ''0''"
  by (simp add: lowerChar_def)

lemma toLowerCase_padStart:
  "toLowerCase (padStart s n (CHR ''0'')) = padStart (toLowerCase s) n (CHR ''0'')"
  by (simp add: toLowerCase_def padStart_def lowerChar_zero)

lemma length_blockWindow: "length (blockWindow s) = 16"
  by (simp add: blockWindow_def Let_def padStart_def)

lemma length_keyWindow: "length (keyWindow k) = 16"
  by (simp add: keyWindow_def padEnd_def)

lemma hexToBits_blockWindow: "hexToBits (blockWindow s) 64 = hexToBits s 64"
proof -
  let ?p = "padStart s 16 (CHR ''0'')"
  let ?lp = "padStart (toLowerCase s) 16 (CHR ''0'')"
  have len: "length ?lp = length ?p" "16 \<le> length ?lp"
    by (simp_all add: padStart_def toLowerCase_def)
  have bits_len: "length (concat (map nibbleBits ?lp)) = 4 * length ?lp"
    by (rule length_concat_nibbles)
  from len(2) have start: "\<not> int (4 * length ?lp) - int 64 < 0"
    "nat (int (4 * length ?lp) - int 64) = 4 * (length ?lp - 16)"
    by arith+
  have "hexToBits s 64 = sliceFrom (concat (map nibbleBits ?lp)) (int (4 * length ?lp) - int 64)"
    by (simp add: hexToBits_def Let_def bits_len)
  also have "\<dots> = drop (4 * (length ?lp - 16)) (concat (map nibbleBits ?lp))"
    by (simp only: sliceFrom_def start if_False)
  finally have "hexToBits s 64 = drop (4 * (length ?lp - 16)) (concat (map nibbleBits ?lp))" .
  also have "\<dots> = concat (map nibbleBits (drop (length ?lp - 16) ?lp))"
    by (rule drop_concat_nibbles)
  also have "\<dots> = concat (map nibbleBits (toLowerCase (blockWindow s)))"
  proof -
    have "toLowerCase (blockWindow s) = drop (length ?p - 16) (toLowerCase ?p)"
      by (simp add: blockWindow_def Let_def toLowerCase_def drop_map)
    also have "\<dots> = drop (length ?lp - 16) ?lp"
      by (simp only: toLowerCase_padStart len(1))
    finally show ?thesis by simp
  qed
  also have "\<dots> = hexToBits (blockWindow s) 64"
    by (rule hexToBits_exact [symmetric]) (simp add: length_blockWindow)
  finally show ?thesis by simp
qed

lemma keyWindow_idem: "take 16 (padEnd (keyWindow k) 16 (CHR ''0'')) = keyWindow k"
  using length_keyWindow [of k] by (simp add: padEnd_def)

lemma generate_subkeys_keyWindow: "generate_subkeys (keyWindow k) = generate_subkeys k"
  by (simp add: generate_subkeys_def keyWindow_idem) (simp add: keyWindow_def)

lemma key_sequence_keyWindow: "key_sequence (keyWindow k) mode = key_sequence k mode"
  by (simp add: key_sequence_def generate_subkeys_keyWindow)

lemma output_of_runCore:
  "output_of (runCore inp keyHex mode)
     = Inr (bitsToHex (core_bits (hexToBits inp 64) (key_sequence keyHex mode)))"
  using runCore_total [of inp keyHex mode] by (auto simp: output_of_def)

lemma runCore_window:
  "output_of (runCore inp keyHex mode) = output_of (runCore (blockWindow inp) (keyWindow keyHex) mode)"
  by (simp add: output_of_runCore hexToBits_blockWindow key_sequence_keyWindow)

text \<open>
  C7, as the code has it. The single-block cipher never fails: for a block and a key of
  any length and content it returns a result, and its output is the one for the block
  padded with \<^verbatim>\<open>0\<close> on the left or cut to its last 16 characters and the key padded with
  \<^verbatim>\<open>0\<close> on the right or cut to its first 16 characters.
\<close>

theorem runCore_pads_and_truncates:
  "\<not> isl (runCore inp keyHex mode)
   \<and> output_of (runCore inp keyHex mode)
       = output_of (runCore (blockWindow inp) (keyWindow keyHex) mode)
   \<and> length (blockWindow inp) = 16 \<and> length (keyWindow keyHex) = 16"
  using runCore_total [of inp keyHex mode] runCore_window [of inp keyHex mode]
  by (auto simp: length_blockWindow length_keyWindow)

theorem runCore_pads_and_truncates_witness:
  "\<not> isl (runCore ''1'' ''13'' Encrypt)
   \<and> output_of (runCore ''1'' ''13'' Encrypt)
       = output_of (runCore ''0000000000000001'' ''1300000000000000'' Encrypt)"
proof -
  have "blockWindow ''1'' = ''0000000000000001''" "keyWindow ''13'' = ''1300000000000000''"
    by code_simp+
  with runCore_pads_and_truncates [of "''1''" "''13''" Encrypt] show ?thesis
    by simp
qed

text \<open>
  The claim C7 as it is stated fails: a block of 15 characters and a key of 20 characters
  reach the cipher, and it returns the ciphertext of the published vector, having put a
  \<^verbatim>\<open>0\<close> before the block and dropped the last four characters of the key.
\<close>

theorem fail_fast_counterexample:
  "\<not> isl (des_encrypt ''123456789abcdef'' ''133457799bbcdff1ffff'')
   \<and> output_of (des_encrypt ''123456789abcdef'' ''133457799bbcdff1ffff'') = Inr ''85e813540f0ab405''"
proof -
  have w: "blockWindow ''123456789abcdef'' = ''0123456789abcdef''"
    "keyWindow ''133457799bbcdff1ffff'' = ''133457799bbcdff1''"
    by (simp_all add: blockWindow_def keyWindow_def padStart_def padEnd_def)
  have "output_of (des_encrypt ''123456789abcdef'' ''133457799bbcdff1ffff'')
          = output_of (des_encrypt ''0123456789abcdef'' ''133457799bbcdff1'')"
    unfolding des_encrypt_def by (subst runCore_window) (simp only: w)
  then have "output_of (des_encrypt ''123456789abcdef'' ''133457799bbcdff1ffff'') = Inr ''85e813540f0ab405''"
    by (simp only: vector_nist)
  then show ?thesis
    by (auto simp: output_of_def split: sum.splits)
qed

section \<open>Bytes in hexadecimal notation\<close>

lemma hexLookup_digit:
  assumes "v < 16"
  shows "hexDigitValue (hexLookup ! v) = Some v \<and> \<not> isJsSpace (hexLookup ! v)
       \<and> hexLookup ! v \<noteq> CHR ''+'' \<and> hexLookup ! v \<noteq> CHR ''-''
       \<and> hexLookup ! v \<noteq> CHR ''x'' \<and> hexLookup ! v \<noteq> CHR ''X''
       \<and> hexLookup ! v \<in> set hexLookup"
proof -
  from assms have "v \<in> {0, 1, 2, 3, 4, 5, 6, 7, 8, 9, 10, 11, 12, 13, 14, 15}"
    by (simp; arith)
  then show ?thesis
    by (elim insertE emptyE; simp add: hexLookup_def hexDigitValue_def isJsSpace_def)
qed

lemma length_hexLookup: "length hexLookup = 16"
  by (simp add: hexLookup_def)

lemma lower_hex_index: "c \<in> set hexLookup \<Longrightarrow> \<exists>v<16. c = hexLookup ! v"
  by (metis in_set_conv_nth length_hexLookup)

lemma parseInt16_pair:
  assumes "va < 16" "vb < 16"
  shows "parseInt16 [hexLookup ! va, hexLookup ! vb] = Some (int (16 * va + vb))"
  using hexLookup_digit [OF assms(1)] hexLookup_digit [OF assms(2)]
  by (simp add: parseInt16_def Let_def)

lemma toString16_byte:
  assumes "n < 256"
  shows "padStart (toString16 n) 2 (CHR ''0'') = [hexLookup ! (n div 16), hexLookup ! (n mod 16)]"
proof (cases "n < 16")
  case True
  then show ?thesis
    by (simp add: toString16.simps [of n] padStart_def hexLookup_def)
next
  case False
  with assms have "n div 16 < 16" by arith
  with False show ?thesis
    by (simp add: toString16.simps [of n] toString16.simps [of "n div 16"] padStart_def)
qed

lemma bytesToHex_Nil [simp]: "bytesToHex [] = []"
  by (simp add: bytesToHex_def)

lemma bytesToHex_Cons:
  "bytesToHex (b # bs) = [hexLookup ! (unat b div 16), hexLookup ! (unat b mod 16)] @ bytesToHex bs"
proof -
  have "unat b < 256" using unsigned_less [of b, where 'a = nat] by simp
  then show ?thesis
    by (simp add: bytesToHex_def toString16_byte)
qed

lemma bytesToHex_append: "bytesToHex (xs @ ys) = bytesToHex xs @ bytesToHex ys"
  by (simp add: bytesToHex_def)

lemma length_bytesToHex: "length (bytesToHex bs) = 2 * length bs"
  by (induction bs) (simp_all add: bytesToHex_Cons)

lemma isLowerHex_bytesToHex: "isLowerHex (bytesToHex bs)"
proof (induction bs)
  case Nil
  then show ?case by (simp add: isLowerHex_def)
next
  case (Cons b bs)
  have "unat b < 256" using unsigned_less [of b, where 'a = nat] by simp
  then have "unat b div 16 < 16" "unat b mod 16 < 16"
    by arith+
  from this [THEN hexLookup_digit] Cons show ?case
    by (simp add: bytesToHex_Cons isLowerHex_def)
qed

lemma hexToBytes_loop_Nil: "hexToBytes_loop [] acc = Inr acc"
  by (simp add: hexToBytes_loop.simps)

lemma hexToBytes_loop_pair:
  assumes "va < 16" "vb < 16"
  shows "hexToBytes_loop (hexLookup ! va # hexLookup ! vb # rest) acc
           = hexToBytes_loop rest (acc @ [of_nat (16 * va + vb)])"
  by (subst hexToBytes_loop.simps) (simp add: parseInt16_pair [OF assms])

lemma hexToBytes_loop_bytesToHex:
  "hexToBytes_loop (bytesToHex bs) acc = Inr (acc @ bs)"
proof (induction bs arbitrary: acc)
  case Nil
  then show ?case by (simp add: hexToBytes_loop_Nil)
next
  case (Cons b bs)
  have "unat b < 256" using unsigned_less [of b, where 'a = nat] by simp
  then have d: "unat b div 16 < 16" "unat b mod 16 < 16"
    by arith+
  have "(of_nat (16 * (unat b div 16) + unat b mod 16) :: 8 word) = b"
    by simp
  with Cons [of "acc @ [b]"] show ?case
    by (simp add: bytesToHex_Cons hexToBytes_loop_pair [OF d])
qed

lemma trim_no_space:
  assumes "\<forall>c \<in> set s. \<not> isJsSpace c"
  shows "trim s = s"
proof -
  have "dropWhile isJsSpace xs = xs" if "\<forall>c \<in> set xs. \<not> isJsSpace c" for xs
    using that by (cases xs) simp_all
  from this [of s] this [of "rev s"] assms show ?thesis
    by (simp add: trim_def)
qed

lemma lower_hex_no_space: "c \<in> set hexLookup \<Longrightarrow> \<not> isJsSpace c"
  using lower_hex_index [of c] hexLookup_digit by blast

lemma hexToBytes_bytesToHex: "hexToBytes (bytesToHex bs) = Inr bs"
proof -
  have "\<forall>c \<in> set (bytesToHex bs). \<not> isJsSpace c"
    using isLowerHex_bytesToHex [of bs]
    by (auto simp: isLowerHex_def list_all_iff dest: lower_hex_no_space)
  then have "trim (bytesToHex bs) = bytesToHex bs" by (rule trim_no_space)
  then show ?thesis
    by (simp add: hexToBytes_def Let_def length_bytesToHex hexToBytes_loop_bytesToHex)
qed

text \<open>Every string of an even number of lowercase digits is the notation of bytes.\<close>

lemma lower_hex_bytes:
  "length s = 2 * n \<Longrightarrow> isLowerHex s \<Longrightarrow> \<exists>bs. length bs = n \<and> bytesToHex bs = s"
proof (induction n arbitrary: s)
  case 0
  then show ?case by simp
next
  case (Suc n)
  from Suc.prems(1) obtain a b rest where s: "s = a # b # rest" "length rest = 2 * n"
    by (cases s; cases "tl s") auto
  with Suc.prems(2) have "a \<in> set hexLookup" "b \<in> set hexLookup" "isLowerHex rest"
    by (simp_all add: isLowerHex_def)
  then obtain va vb where v: "va < 16" "a = hexLookup ! va" "vb < 16" "b = hexLookup ! vb"
    using lower_hex_index by blast
  from Suc.IH [OF s(2) \<open>isLowerHex rest\<close>] obtain bs where
    bs: "length bs = n" "bytesToHex bs = rest" by blast
  let ?b = "of_nat (16 * va + vb) :: 8 word"
  from v have "16 * va + vb < 256" by arith
  then have "unat ?b = 16 * va + vb"
    by (intro of_nat_inverse) simp_all
  with v have "unat ?b div 16 = va" "unat ?b mod 16 = vb" by simp_all
  with bs s v have "length (?b # bs) = Suc n \<and> bytesToHex (?b # bs) = s"
    by (simp add: bytesToHex_Cons)
  then show ?case by blast
qed

lemma hexToBytes_lower_hex:
  assumes "length s = 2 * n" "isLowerHex s"
  shows "\<exists>bs. hexToBytes s = Inr bs \<and> length bs = n \<and> bytesToHex bs = s"
  using lower_hex_bytes [OF assms] hexToBytes_bytesToHex by auto

section \<open>Padding\<close>

lemma unpad_loop_iff:
  "unpad_loop bs pad i \<longleftrightarrow> (\<forall>j. i \<le> j \<and> j < pad \<longrightarrow> bs ! (length bs - 1 - j) = of_nat pad)"
proof (induction bs pad i rule: unpad_loop.induct)
  case (1 bs pad i)
  show ?case
  proof (cases "i < pad")
    case False
    then show ?thesis by (auto simp: unpad_loop.simps [of bs pad i])
  next
    case True
    show ?thesis
    proof (cases "bs ! (length bs - 1 - i) = of_nat pad")
      case False
      with True show ?thesis
        by (auto simp: unpad_loop.simps [of bs pad i])
    next
      case eq: True
      have "(\<forall>j. i \<le> j \<and> j < pad \<longrightarrow> bs ! (length bs - 1 - j) = of_nat pad)
             \<longleftrightarrow> (\<forall>j. i + 1 \<le> j \<and> j < pad \<longrightarrow> bs ! (length bs - 1 - j) = of_nat pad)"
      proof
        assume "\<forall>j. i \<le> j \<and> j < pad \<longrightarrow> bs ! (length bs - 1 - j) = of_nat pad"
        then show "\<forall>j. i + 1 \<le> j \<and> j < pad \<longrightarrow> bs ! (length bs - 1 - j) = of_nat pad"
          by simp
      next
        assume a: "\<forall>j. i + 1 \<le> j \<and> j < pad \<longrightarrow> bs ! (length bs - 1 - j) = of_nat pad"
        show "\<forall>j. i \<le> j \<and> j < pad \<longrightarrow> bs ! (length bs - 1 - j) = of_nat pad"
        proof (intro allI impI)
          fix j assume j: "i \<le> j \<and> j < pad"
          show "bs ! (length bs - 1 - j) = of_nat pad"
          proof (cases "j = i")
            case True
            with eq show ?thesis by simp
          next
            case False
            with j have "i + 1 \<le> j \<and> j < pad" by arith
            with a show ?thesis by blast
          qed
        qed
      qed
      with 1 True eq show ?thesis
        by (simp add: unpad_loop.simps [of bs pad i])
    qed
  qed
qed

lemma padTo8Bytes_eq:
  "padTo8Bytes bs = bs @ replicate (8 - length bs mod 8) (of_nat (8 - length bs mod 8))"
proof -
  have "8 - length bs mod 8 \<noteq> 0" by arith
  then show ?thesis by (simp add: padTo8Bytes_def Let_def)
qed

lemma unpadPkcs_eq:
  "unpadPkcs bs =
     (if bs \<noteq> [] \<and> 1 \<le> unat (last bs) \<and> unat (last bs) \<le> 8 \<and> unat (last bs) \<le> length bs
         \<and> (\<forall>i < unat (last bs). bs ! (length bs - 1 - i) = last bs)
      then take (length bs - unat (last bs)) bs else bs)"
proof (cases "bs = []")
  case True
  then show ?thesis by (simp add: unpadPkcs_def)
next
  case False
  then have l: "bs ! (length bs - 1) = last bs" by (simp add: last_conv_nth)
  have "(of_nat (unat (last bs)) :: 8 word) = last bs" by simp
  with False l show ?thesis
    by (auto simp: unpadPkcs_def Let_def unpad_loop_iff)
qed

lemma unpad_pad: "unpadPkcs (padTo8Bytes bs) = bs"
proof -
  define k where "k = 8 - length bs mod 8"
  have k: "1 \<le> k" "k \<le> 8" unfolding k_def by arith+
  let ?p = "bs @ replicate k (of_nat k :: 8 word)"
  have p: "padTo8Bytes bs = ?p" by (simp add: padTo8Bytes_eq k_def)
  from k have last: "last ?p = of_nat k" by simp
  from k have u: "unat (of_nat k :: 8 word) = k" by (intro of_nat_inverse) simp_all
  have all: "?p ! (length ?p - 1 - i) = of_nat k" if "i < k" for i
  proof -
    from that have "length ?p - 1 - i = length bs + (k - 1 - i)" "k - 1 - i < k" by simp_all
    then show ?thesis by (simp only: nth_append_length_plus nth_replicate)
  qed
  from k have "?p \<noteq> []" by auto
  with k last u all have "unpadPkcs ?p = take (length ?p - k) ?p"
    by (simp add: unpadPkcs_eq)
  then show ?thesis by (simp add: p)
qed

text \<open>
  C5. Padding appends \<open>8 - (len mod 8)\<close> bytes, which is 8 when the length is a
  multiple of 8, each equal to the number of bytes appended. Unpadding never fails: when
  the last byte has a value \<open>N\<close> from 1 to 8, there are at least \<open>N\<close> bytes and the last
  \<open>N\<close> bytes all equal \<open>N\<close>, it removes these \<open>N\<close> bytes, and otherwise it returns its
  argument. Unpadding a padded array gives the array back.
\<close>

theorem padding_roundtrip:
  "padTo8Bytes bs = bs @ replicate (8 - length bs mod 8) (of_nat (8 - length bs mod 8))
   \<and> (length bs mod 8 = 0 \<longrightarrow> length (padTo8Bytes bs) = length bs + 8)
   \<and> unpadPkcs bs =
       (if bs \<noteq> [] \<and> 1 \<le> unat (last bs) \<and> unat (last bs) \<le> 8 \<and> unat (last bs) \<le> length bs
           \<and> (\<forall>i < unat (last bs). bs ! (length bs - 1 - i) = last bs)
        then take (length bs - unat (last bs)) bs else bs)
   \<and> unpadPkcs (padTo8Bytes bs) = bs"
  using unpadPkcs_eq [of bs] unpad_pad [of bs] by (simp add: padTo8Bytes_eq)

theorem padding_roundtrip_witness:
  "length [1, 2, 3, 4, 5, 6, 7, 8 :: 8 word] mod 8 = 0
   \<and> length (padTo8Bytes [1, 2, 3, 4, 5, 6, 7, 8]) = 16
   \<and> unpadPkcs (padTo8Bytes [1, 2, 3, 4, 5, 6, 7, 8]) = [1, 2, 3, 4, 5, 6, 7, 8]
   \<and> unpadPkcs [7, 7, 2, 2] = [7, 7]"
proof -
  note a = padding_roundtrip [of "[1, 2, 3, 4, 5, 6, 7, 8]"]
  note b = padding_roundtrip [of "[7, 7, 2, 2]"]
  from a [THEN conjunct2, THEN conjunct1]
  have 1: "length (padTo8Bytes [1, 2, 3, 4, 5, 6, 7, 8]) = 16" by simp
  from a [THEN conjunct2, THEN conjunct2, THEN conjunct2]
  have 2: "unpadPkcs (padTo8Bytes [1, 2, 3, 4, 5, 6, 7, 8]) = [1, 2, 3, 4, 5, 6, 7, 8]" .
  from b [THEN conjunct2, THEN conjunct2, THEN conjunct1]
  have 3: "unpadPkcs [7, 7, 2, 2] = [7, 7]" by (simp add: less_2_cases_iff)
  from 1 2 3 show ?thesis by simp
qed

section \<open>The modes of operation\<close>

lemma block_loop_Nil: "block_loop body chain [] blocks first = Inr (blocks, first)"
  by (simp add: block_loop.simps)

text \<open>
  C10. For every mode, key and IV, \<^verbatim>\<open>encryptBytesWithMode\<close> raises the error
  \<^verbatim>\<open>No blocks were encrypted\<close> on an empty plaintext.
\<close>

theorem encrypt_empty_fails:
  "encryptBytesWithMode [] keyHex mode customIv randomBlock
     = Inl (JsError ''No blocks were encrypted'')"
  by (cases mode)
     (simp_all add: encryptBytesWithMode_def Let_def ecb_encrypt_loop.simps [of "[]"]
        cbc_encrypt_loop.simps [of "[]"] cfb_encrypt_loop.simps [of "[]"]
        ofb_encrypt_loop.simps [of "[]"] ctr_encrypt_loop.simps [of "[]"])

lemma outputHex_width:
  assumes "runCore inp keyHex mode = Inr res"
  shows "hexOfWidth 64 (outputHex res)"
proof -
  have b: "length (hexToBits inp 64) = 64" "isBits (hexToBits inp 64)"
    by (simp_all add: length_hexToBits isBits_hexToBits)
  from runCore_total [of inp keyHex mode] assms
  have "outputHex res = bitsToHex (core_bits (hexToBits inp 64) (key_sequence keyHex mode))"
    by auto
  with core_bits_ok [OF b, of "key_sequence keyHex mode"] show ?thesis
    by (simp add: hexOfWidth_bitsToHex)
qed

lemma output_bytes:
  assumes "runCore inp keyHex mode = Inr res"
  shows "\<exists>bs. hexToBytes (outputHex res) = Inr bs \<and> length bs = 8 \<and> bytesToHex bs = outputHex res"
proof -
  from outputHex_width [OF assms] have "length (outputHex res) = 2 * 8" "isLowerHex (outputHex res)"
    by (simp_all add: hexOfWidth_def)
  then show ?thesis by (rule hexToBytes_lower_hex)
qed

lemma encryptBlock_total: "\<exists>c res. encryptBlock block keyHex = Inr (c, res) \<and> length c = 8"
proof -
  from runCore_total [of "bytesToHex block" keyHex Encrypt] obtain res where
    res: "runCore (bytesToHex block) keyHex Encrypt = Inr res" by blast
  from output_bytes [OF this] res show ?thesis
    by (auto simp: encryptBlock_def des_encrypt_def)
qed

lemma decryptBlock_total: "\<exists>c res. decryptBlock block keyHex = Inr (c, res) \<and> length c = 8"
proof -
  from runCore_total [of "bytesToHex block" keyHex Decrypt] obtain res where
    res: "runCore (bytesToHex block) keyHex Decrypt = Inr res" by blast
  from output_bytes [OF this] res show ?thesis
    by (auto simp: decryptBlock_def des_decrypt_def)
qed

lemma encryptBlock_decryptBlock:
  assumes "length b = 8"
  shows "\<exists>c r r'. encryptBlock b keyHex = Inr (c, r) \<and> length c = 8
           \<and> decryptBlock c keyHex = Inr (b, r')"
proof -
  let ?h = "bytesToHex b"
  have h: "length ?h = 16" "isLowerHex ?h"
    using assms by (simp_all add: length_bytesToHex isLowerHex_bytesToHex)
  from des_roundtrip_general [of ?h keyHex] obtain e d where
    ed: "des_encrypt ?h keyHex = Inr e" "des_decrypt (outputHex e) keyHex = Inr d"
        "outputHex d = bitsToHex (hexToBits ?h 64)" by blast
  from h have "bitsToHex (hexToBits ?h 64) = ?h"
    by (simp add: block_hex_lower isLowerHex_isHexString toLowerCase_isLowerHex)
  with ed have d: "outputHex d = ?h" by simp
  from ed(1) have "runCore ?h keyHex Encrypt = Inr e" by (simp add: des_encrypt_def)
  from output_bytes [OF this] obtain c where
    c: "hexToBytes (outputHex e) = Inr c" "length c = 8" "bytesToHex c = outputHex e" by blast
  from ed(1) c have "encryptBlock b keyHex = Inr (c, e)"
    by (simp add: encryptBlock_def)
  moreover from ed(2) c d have "decryptBlock c keyHex = Inr (b, d)"
    by (simp add: decryptBlock_def hexToBytes_bytesToHex)
  ultimately show ?thesis using c(2) by blast
qed

lemma length_xorBlocks [simp]: "length (xorBlocks a b) = 8"
  by (simp add: xorBlocks_def)

lemma xorBlocks_nth: "i < 8 \<Longrightarrow> xorBlocks a b ! i = byteAt a i XOR byteAt b i"
  by (simp add: xorBlocks_def)

lemma byteAt_xorBlocks: "i < 8 \<Longrightarrow> byteAt (xorBlocks a b) i = byteAt a i XOR byteAt b i"
  by (simp add: byteAt_def [of "xorBlocks a b"] xorBlocks_nth)

lemma xorBlocks_cancel:
  assumes "length a = 8"
  shows "xorBlocks (xorBlocks a b) b = a"
proof (rule nth_equalityI)
  show "length (xorBlocks (xorBlocks a b) b) = length a" using assms by simp
next
  fix i assume "i < length (xorBlocks (xorBlocks a b) b)"
  then have i: "i < 8" by simp
  then have "xorBlocks (xorBlocks a b) b ! i = (byteAt a i XOR byteAt b i) XOR byteAt b i"
    by (simp only: xorBlocks_nth byteAt_xorBlocks)
  also have "\<dots> = byteAt a i"
    by (simp add: xor.assoc)
  also have "\<dots> = a ! i"
    using i assms by (simp add: byteAt_def)
  finally show "xorBlocks (xorBlocks a b) b ! i = a ! i" .
qed

lemma block_loop_step:
  assumes "rest \<noteq> []" "body chain (take 8 rest) = Inr (out, res, chain')"
  shows "block_loop body chain rest blocks first
           = block_loop body chain' (drop 8 rest) (blocks @ [out]) (getFirst first res)"
  using assms by (subst block_loop.simps) simp

lemma getFirst_Some: "getFirst first res \<noteq> None"
  by (simp add: getFirst_def split: option.splits)

text \<open>A loop whose turns never fail does not fail, whatever the length of the data.\<close>

lemma block_loop_total:
  assumes "\<And>chain b. \<exists>out res chain'. body chain b = Inr (out, res, chain')"
  shows "\<exists>bs f. block_loop body chain rest blocks first = Inr (bs, f)"
proof (induction "length rest" arbitrary: chain rest blocks first rule: less_induct)
  case less
  show ?case
  proof (cases "rest = []")
    case True
    then show ?thesis by (simp add: block_loop_Nil)
  next
    case False
    from assms [of chain "take 8 rest"] obtain out res chain' where
      b: "body chain (take 8 rest) = Inr (out, res, chain')" by blast
    from False have "length (drop 8 rest) < length rest" by simp
    from less [OF this, of chain' "blocks @ [out]" "getFirst first res"]
      block_loop_step [where body = body and rest = rest, OF False b, of blocks first]
    show ?thesis by simp
  qed
qed

text \<open>
  Decryption undoes encryption block by block when each turn of the decryption loop
  undoes the turn of the encryption loop and leaves the same chaining value.
\<close>

lemma block_loop_roundtrip:
  assumes step: "\<And>chain b. length b = 8 \<Longrightarrow>
            \<exists>c r r' chain'. enc chain b = Inr (c, r, chain') \<and> length c = 8
              \<and> dec chain c = Inr (b, r', chain')"
  shows "length pt = 8 * n \<Longrightarrow>
         \<exists>ct f. block_loop enc chain pt blocks first = Inr (blocks @ ct, f)
           \<and> (0 < n \<longrightarrow> f \<noteq> None) \<and> (first \<noteq> None \<longrightarrow> f \<noteq> None)
           \<and> length (concat ct) = 8 * n
           \<and> (\<forall>blocks' first'. \<exists>ps f'.
                 block_loop dec chain (concat ct) blocks' first' = Inr (blocks' @ ps, f')
                 \<and> concat ps = pt)"
proof (induction n arbitrary: pt chain blocks first)
  case 0
  then show ?case by (simp add: block_loop_Nil)
next
  case (Suc n)
  let ?b = "take 8 pt"
  let ?rest = "drop 8 pt"
  from Suc.prems have ne: "pt \<noteq> []" and b: "length ?b = 8" and rest: "length ?rest = 8 * n"
    by auto
  from step [OF b, of chain] obtain c r r' chain' where
    s: "enc chain ?b = Inr (c, r, chain')" "length c = 8" "dec chain c = Inr (?b, r', chain')"
    by blast
  from Suc.IH [OF rest, of chain' "blocks @ [c]" "getFirst first r"] obtain ct f where
    ih: "block_loop enc chain' ?rest (blocks @ [c]) (getFirst first r) = Inr ((blocks @ [c]) @ ct, f)"
        "f \<noteq> None" "length (concat ct) = 8 * n"
        "\<forall>blocks' first'. \<exists>ps f'.
            block_loop dec chain' (concat ct) blocks' first' = Inr (blocks' @ ps, f')
            \<and> concat ps = ?rest"
    using getFirst_Some by blast
  have e: "block_loop enc chain pt blocks first = Inr (blocks @ (c # ct), f)"
    using block_loop_step [where body = enc and rest = pt, OF ne s(1), of blocks first] ih(1)
    by simp
  have d: "\<exists>ps f'. block_loop dec chain (concat (c # ct)) blocks' first' = Inr (blocks' @ ps, f')
             \<and> concat ps = pt" for blocks' first'
  proof -
    from s(2) have c: "concat (c # ct) \<noteq> []" "take 8 (concat (c # ct)) = c"
      "drop 8 (concat (c # ct)) = concat ct" by auto
    from ih(4) obtain ps f' where
      ps: "block_loop dec chain' (concat ct) (blocks' @ [?b]) (getFirst first' r')
             = Inr ((blocks' @ [?b]) @ ps, f')" "concat ps = ?rest" by blast
    from s(3) have "dec chain (take 8 (concat (c # ct))) = Inr (?b, r', chain')"
      by (simp only: c(2))
    from block_loop_step [where body = dec and rest = "concat (c # ct)", OF c(1) this,
        of blocks' first'] ps
    have "block_loop dec chain (concat (c # ct)) blocks' first' = Inr (blocks' @ (?b # ps), f')"
      by (simp only: c(3)) simp
    moreover from ps(2) have "concat (?b # ps) = pt" by simp
    ultimately show ?thesis by blast
  qed
  from e d ih(2,3) s(2) show ?case
    by (intro exI [of _ "c # ct"] exI [of _ f]) simp
qed

text \<open>
  Each of the ten loops is \<open>block_loop\<close> at the body of its mode: first the body is
  unfolded in one turn of \<open>block_loop\<close>, then the two recursions are compared.
\<close>

lemma ecb_encrypt_body_loop:
  "block_loop (ecb_encrypt_body keyHex) chain rest blocks first =
     (if rest = [] then Inr (blocks, first)
      else (case encryptBlock (take 8 rest) keyHex of
              Inl e \<Rightarrow> Inl e
            | Inr (x, res) \<Rightarrow>
                block_loop (ecb_encrypt_body keyHex) chain (drop 8 rest) (blocks @ [x])
                  (getFirst first res)))"
  by (subst block_loop.simps)
     (simp add: ecb_encrypt_body_def Let_def split: sum.splits prod.splits)

lemma ecb_encrypt_loop_eq:
  "ecb_encrypt_loop rest keyHex blocks first
     = block_loop (ecb_encrypt_body keyHex) chain rest blocks first"
  apply (induction rest keyHex blocks first rule: ecb_encrypt_loop.induct)
  apply (subst ecb_encrypt_loop.simps)
  apply (subst ecb_encrypt_body_loop)
  apply (simp add: Let_def split: sum.splits prod.splits)
  done

lemma cbc_encrypt_body_loop:
  "block_loop (cbc_encrypt_body keyHex) chain rest blocks first =
     (if rest = [] then Inr (blocks, first)
      else (case encryptBlock (xorBlocks (take 8 rest) chain) keyHex of
              Inl e \<Rightarrow> Inl e
            | Inr (x, res) \<Rightarrow>
                block_loop (cbc_encrypt_body keyHex) x (drop 8 rest) (blocks @ [x])
                  (getFirst first res)))"
  by (subst block_loop.simps)
     (simp add: cbc_encrypt_body_def Let_def split: sum.splits prod.splits)

lemma cbc_encrypt_loop_eq:
  "cbc_encrypt_loop rest keyHex chain blocks first
     = block_loop (cbc_encrypt_body keyHex) chain rest blocks first"
  apply (induction rest keyHex chain blocks first rule: cbc_encrypt_loop.induct)
  apply (subst cbc_encrypt_loop.simps)
  apply (subst cbc_encrypt_body_loop)
  apply (simp add: Let_def split: sum.splits prod.splits)
  done

lemma cfb_encrypt_body_loop:
  "block_loop (cfb_encrypt_body keyHex) chain rest blocks first =
     (if rest = [] then Inr (blocks, first)
      else (case encryptBlock chain keyHex of
              Inl e \<Rightarrow> Inl e
            | Inr (x, res) \<Rightarrow>
                block_loop (cfb_encrypt_body keyHex) (xorBlocks (take 8 rest) x) (drop 8 rest) (blocks @ [xorBlocks (take 8 rest) x])
                  (getFirst first res)))"
  by (subst block_loop.simps)
     (simp add: cfb_encrypt_body_def Let_def split: sum.splits prod.splits)

lemma cfb_encrypt_loop_eq:
  "cfb_encrypt_loop rest keyHex chain blocks first
     = block_loop (cfb_encrypt_body keyHex) chain rest blocks first"
  apply (induction rest keyHex chain blocks first rule: cfb_encrypt_loop.induct)
  apply (subst cfb_encrypt_loop.simps)
  apply (subst cfb_encrypt_body_loop)
  apply (simp add: Let_def split: sum.splits prod.splits)
  done

lemma ofb_encrypt_body_loop:
  "block_loop (ofb_encrypt_body keyHex) chain rest blocks first =
     (if rest = [] then Inr (blocks, first)
      else (case encryptBlock chain keyHex of
              Inl e \<Rightarrow> Inl e
            | Inr (x, res) \<Rightarrow>
                block_loop (ofb_encrypt_body keyHex) x (drop 8 rest) (blocks @ [xorBlocks (take 8 rest) x])
                  (getFirst first res)))"
  by (subst block_loop.simps)
     (simp add: ofb_encrypt_body_def Let_def split: sum.splits prod.splits)

lemma ofb_encrypt_loop_eq:
  "ofb_encrypt_loop rest keyHex chain blocks first
     = block_loop (ofb_encrypt_body keyHex) chain rest blocks first"
  apply (induction rest keyHex chain blocks first rule: ofb_encrypt_loop.induct)
  apply (subst ofb_encrypt_loop.simps)
  apply (subst ofb_encrypt_body_loop)
  apply (simp add: Let_def split: sum.splits prod.splits)
  done

lemma ctr_encrypt_body_loop:
  "block_loop (ctr_encrypt_body keyHex) chain rest blocks first =
     (if rest = [] then Inr (blocks, first)
      else (case encryptBlock chain keyHex of
              Inl e \<Rightarrow> Inl e
            | Inr (x, res) \<Rightarrow>
                block_loop (ctr_encrypt_body keyHex) (incrementCounter chain) (drop 8 rest) (blocks @ [xorBlocks (take 8 rest) x])
                  (getFirst first res)))"
  by (subst block_loop.simps)
     (simp add: ctr_encrypt_body_def Let_def split: sum.splits prod.splits)

lemma ctr_encrypt_loop_eq:
  "ctr_encrypt_loop rest keyHex chain blocks first
     = block_loop (ctr_encrypt_body keyHex) chain rest blocks first"
  apply (induction rest keyHex chain blocks first rule: ctr_encrypt_loop.induct)
  apply (subst ctr_encrypt_loop.simps)
  apply (subst ctr_encrypt_body_loop)
  apply (simp add: Let_def split: sum.splits prod.splits)
  done

lemma ecb_decrypt_body_loop:
  "block_loop (ecb_decrypt_body keyHex) chain rest blocks first =
     (if rest = [] then Inr (blocks, first)
      else (case decryptBlock (take 8 rest) keyHex of
              Inl e \<Rightarrow> Inl e
            | Inr (x, res) \<Rightarrow>
                block_loop (ecb_decrypt_body keyHex) chain (drop 8 rest) (blocks @ [x])
                  (getFirst first res)))"
  by (subst block_loop.simps)
     (simp add: ecb_decrypt_body_def Let_def split: sum.splits prod.splits)

lemma ecb_decrypt_loop_eq:
  "ecb_decrypt_loop rest keyHex blocks first
     = block_loop (ecb_decrypt_body keyHex) chain rest blocks first"
  apply (induction rest keyHex blocks first rule: ecb_decrypt_loop.induct)
  apply (subst ecb_decrypt_loop.simps)
  apply (subst ecb_decrypt_body_loop)
  apply (simp add: Let_def split: sum.splits prod.splits)
  done

lemma cbc_decrypt_body_loop:
  "block_loop (cbc_decrypt_body keyHex) chain rest blocks first =
     (if rest = [] then Inr (blocks, first)
      else (case decryptBlock (take 8 rest) keyHex of
              Inl e \<Rightarrow> Inl e
            | Inr (x, res) \<Rightarrow>
                block_loop (cbc_decrypt_body keyHex) (take 8 rest) (drop 8 rest) (blocks @ [xorBlocks x chain])
                  (getFirst first res)))"
  by (subst block_loop.simps)
     (simp add: cbc_decrypt_body_def Let_def split: sum.splits prod.splits)

lemma cbc_decrypt_loop_eq:
  "cbc_decrypt_loop rest keyHex chain blocks first
     = block_loop (cbc_decrypt_body keyHex) chain rest blocks first"
  apply (induction rest keyHex chain blocks first rule: cbc_decrypt_loop.induct)
  apply (subst cbc_decrypt_loop.simps)
  apply (subst cbc_decrypt_body_loop)
  apply (simp add: Let_def split: sum.splits prod.splits)
  done

lemma cfb_decrypt_body_loop:
  "block_loop (cfb_decrypt_body keyHex) chain rest blocks first =
     (if rest = [] then Inr (blocks, first)
      else (case encryptBlock chain keyHex of
              Inl e \<Rightarrow> Inl e
            | Inr (x, res) \<Rightarrow>
                block_loop (cfb_decrypt_body keyHex) (take 8 rest) (drop 8 rest) (blocks @ [xorBlocks (take 8 rest) x])
                  (getFirst first res)))"
  by (subst block_loop.simps)
     (simp add: cfb_decrypt_body_def Let_def split: sum.splits prod.splits)

lemma cfb_decrypt_loop_eq:
  "cfb_decrypt_loop rest keyHex chain blocks first
     = block_loop (cfb_decrypt_body keyHex) chain rest blocks first"
  apply (induction rest keyHex chain blocks first rule: cfb_decrypt_loop.induct)
  apply (subst cfb_decrypt_loop.simps)
  apply (subst cfb_decrypt_body_loop)
  apply (simp add: Let_def split: sum.splits prod.splits)
  done

lemma ofb_decrypt_body_loop:
  "block_loop (ofb_decrypt_body keyHex) chain rest blocks first =
     (if rest = [] then Inr (blocks, first)
      else (case encryptBlock chain keyHex of
              Inl e \<Rightarrow> Inl e
            | Inr (x, res) \<Rightarrow>
                block_loop (ofb_decrypt_body keyHex) x (drop 8 rest) (blocks @ [xorBlocks (take 8 rest) x])
                  (getFirst first res)))"
  by (subst block_loop.simps)
     (simp add: ofb_decrypt_body_def Let_def split: sum.splits prod.splits)

lemma ofb_decrypt_loop_eq:
  "ofb_decrypt_loop rest keyHex chain blocks first
     = block_loop (ofb_decrypt_body keyHex) chain rest blocks first"
  apply (induction rest keyHex chain blocks first rule: ofb_decrypt_loop.induct)
  apply (subst ofb_decrypt_loop.simps)
  apply (subst ofb_decrypt_body_loop)
  apply (simp add: Let_def split: sum.splits prod.splits)
  done

lemma ctr_decrypt_body_loop:
  "block_loop (ctr_decrypt_body keyHex) chain rest blocks first =
     (if rest = [] then Inr (blocks, first)
      else (case encryptBlock chain keyHex of
              Inl e \<Rightarrow> Inl e
            | Inr (x, res) \<Rightarrow>
                block_loop (ctr_decrypt_body keyHex) (incrementCounter chain) (drop 8 rest) (blocks @ [xorBlocks (take 8 rest) x])
                  (getFirst first res)))"
  by (subst block_loop.simps)
     (simp add: ctr_decrypt_body_def Let_def split: sum.splits prod.splits)

lemma ctr_decrypt_loop_eq:
  "ctr_decrypt_loop rest keyHex chain blocks first
     = block_loop (ctr_decrypt_body keyHex) chain rest blocks first"
  apply (induction rest keyHex chain blocks first rule: ctr_decrypt_loop.induct)
  apply (subst ctr_decrypt_loop.simps)
  apply (subst ctr_decrypt_body_loop)
  apply (simp add: Let_def split: sum.splits prod.splits)
  done

lemmas encrypt_loops_eq =
  ecb_encrypt_loop_eq [where chain = "[]"] cbc_encrypt_loop_eq cfb_encrypt_loop_eq
  ofb_encrypt_loop_eq ctr_encrypt_loop_eq

lemmas decrypt_loops_eq =
  ecb_decrypt_loop_eq [where chain = "[]"] cbc_decrypt_loop_eq cfb_decrypt_loop_eq
  ofb_decrypt_loop_eq ctr_decrypt_loop_eq

text \<open>The two functions of the mode layer, with their loops in the common shape.\<close>

lemma encryptBytesWithMode_loops:
  "encryptBytesWithMode plaintext keyHex mode customIv randomBlock =
     (if mode = ECB then
        (case block_loop (ecb_encrypt_body keyHex) [] plaintext [] None of
           Inl e \<Rightarrow> Inl e
         | Inr (blocks, firstBlockResult) \<Rightarrow>
             (case firstBlockResult of
                None \<Rightarrow> Inl (JsError ''No blocks were encrypted'')
              | Some first \<Rightarrow>
                  Inr \<lparr> enc_output = concatByteChunks blocks, enc_firstBlockResult = first \<rparr>))
      else
        (let iv = (case customIv of Some v \<Rightarrow> v | None \<Rightarrow> randomBlock);
             body = (case mode of
                       CBC \<Rightarrow> cbc_encrypt_body keyHex
                     | CFB \<Rightarrow> cfb_encrypt_body keyHex
                     | OFB \<Rightarrow> ofb_encrypt_body keyHex
                     | _ \<Rightarrow> ctr_encrypt_body keyHex)
         in case block_loop body iv plaintext [] None of
              Inl e \<Rightarrow> Inl e
            | Inr (blocks, firstBlockResult) \<Rightarrow>
                (case firstBlockResult of
                   None \<Rightarrow> Inl (JsError ''No blocks were encrypted'')
                 | Some first \<Rightarrow>
                     Inr \<lparr> enc_output = concatByteChunks [iv, concatByteChunks blocks],
                           enc_firstBlockResult = first \<rparr>)))"
  by (cases mode) (simp_all add: encryptBytesWithMode_def encrypt_loops_eq Let_def)

lemma decryptBytesWithMode_loops:
  "decryptBytesWithMode ciphertext keyHex mode =
     (if mode = ECB then
        (case block_loop (ecb_decrypt_body keyHex) [] ciphertext [] None of
           Inl e \<Rightarrow> Inl e
         | Inr (blocks, firstBlockResult) \<Rightarrow>
             Inr \<lparr> dec_output = concatByteChunks blocks,
                   dec_firstBlockResult = firstBlockResult \<rparr>)
      else if length ciphertext < 16
      then Inl (JsError ''Ciphertext must include an 8-byte IV/nonce.'')
      else
        (let iv = take 8 ciphertext;
             body' = drop 8 ciphertext;
             body = (case mode of
                       CBC \<Rightarrow> cbc_decrypt_body keyHex
                     | CFB \<Rightarrow> cfb_decrypt_body keyHex
                     | OFB \<Rightarrow> ofb_decrypt_body keyHex
                     | _ \<Rightarrow> ctr_decrypt_body keyHex)
         in case block_loop body iv body' [] None of
              Inl e \<Rightarrow> Inl e
            | Inr (blocks, firstBlockResult) \<Rightarrow>
                Inr \<lparr> dec_output = concatByteChunks blocks,
                      dec_firstBlockResult = firstBlockResult \<rparr>))"
  by (cases mode) (simp_all add: decryptBytesWithMode_def decrypt_loops_eq Let_def)

lemma ecb_step:
  assumes "length b = 8"
  shows "\<exists>c r r' chain'. ecb_encrypt_body keyHex chain b = Inr (c, r, chain') \<and> length c = 8
           \<and> ecb_decrypt_body keyHex chain c = Inr (b, r', chain')"
  using encryptBlock_decryptBlock [OF assms, of keyHex]
  by (auto simp: ecb_encrypt_body_def ecb_decrypt_body_def)

lemma cbc_step:
  assumes "length b = 8"
  shows "\<exists>c r r' chain'. cbc_encrypt_body keyHex chain b = Inr (c, r, chain') \<and> length c = 8
           \<and> cbc_decrypt_body keyHex chain c = Inr (b, r', chain')"
proof -
  from encryptBlock_decryptBlock [of "xorBlocks b chain" keyHex] obtain c r r' where
    "encryptBlock (xorBlocks b chain) keyHex = Inr (c, r)" "length c = 8"
    "decryptBlock c keyHex = Inr (xorBlocks b chain, r')" by auto
  then show ?thesis
    by (simp add: cbc_encrypt_body_def cbc_decrypt_body_def Let_def xorBlocks_cancel [OF assms])
qed

lemma cfb_step:
  assumes "length b = 8"
  shows "\<exists>c r r' chain'. cfb_encrypt_body keyHex chain b = Inr (c, r, chain') \<and> length c = 8
           \<and> cfb_decrypt_body keyHex chain c = Inr (b, r', chain')"
proof -
  from encryptBlock_total [of chain keyHex] obtain ks r where
    "encryptBlock chain keyHex = Inr (ks, r)" by blast
  then show ?thesis
    by (simp add: cfb_encrypt_body_def cfb_decrypt_body_def Let_def xorBlocks_cancel [OF assms])
qed

lemma ofb_step:
  assumes "length b = 8"
  shows "\<exists>c r r' chain'. ofb_encrypt_body keyHex chain b = Inr (c, r, chain') \<and> length c = 8
           \<and> ofb_decrypt_body keyHex chain c = Inr (b, r', chain')"
proof -
  from encryptBlock_total [of chain keyHex] obtain ks r where
    "encryptBlock chain keyHex = Inr (ks, r)" by blast
  then show ?thesis
    by (simp add: ofb_encrypt_body_def ofb_decrypt_body_def Let_def xorBlocks_cancel [OF assms])
qed

lemma ctr_step:
  assumes "length b = 8"
  shows "\<exists>c r r' chain'. ctr_encrypt_body keyHex chain b = Inr (c, r, chain') \<and> length c = 8
           \<and> ctr_decrypt_body keyHex chain c = Inr (b, r', chain')"
proof -
  from encryptBlock_total [of chain keyHex] obtain ks r where
    "encryptBlock chain keyHex = Inr (ks, r)" by blast
  then show ?thesis
    by (simp add: ctr_encrypt_body_def ctr_decrypt_body_def Let_def xorBlocks_cancel [OF assms])
qed

lemma length_padTo8Bytes: "\<exists>n. 0 < n \<and> length (padTo8Bytes bs) = 8 * n"
proof -
  have "length (padTo8Bytes bs) = 8 * (length bs div 8 + 1)"
    by (simp add: padTo8Bytes_eq) arith
  then show ?thesis by (intro exI [of _ "length bs div 8 + 1"]) simp
qed

lemma mode_step:
  assumes "length b = 8"
  shows "\<exists>c r r' chain'.
           (case mode of CBC \<Rightarrow> cbc_encrypt_body keyHex | CFB \<Rightarrow> cfb_encrypt_body keyHex
              | OFB \<Rightarrow> ofb_encrypt_body keyHex | _ \<Rightarrow> ctr_encrypt_body keyHex) chain b
             = Inr (c, r, chain') \<and> length c = 8
         \<and> (case mode of CBC \<Rightarrow> cbc_decrypt_body keyHex | CFB \<Rightarrow> cfb_decrypt_body keyHex
              | OFB \<Rightarrow> ofb_decrypt_body keyHex | _ \<Rightarrow> ctr_decrypt_body keyHex) chain c
             = Inr (b, r', chain')"
  using cbc_step [OF assms] cfb_step [OF assms] ofb_step [OF assms] ctr_step [OF assms]
  by (cases mode) simp_all

lemma loops_roundtrip:
  assumes step: "\<And>chain b. length b = 8 \<Longrightarrow>
            \<exists>c r r' chain'. enc chain b = Inr (c, r, chain') \<and> length c = 8
              \<and> dec chain c = Inr (b, r', chain')"
    and pt: "length pt = 8 * n" "0 < n"
  shows "\<exists>ct f f'. block_loop enc chain pt [] None = Inr (ct, Some f)
           \<and> length (concat ct) = 8 * n
           \<and> (\<exists>ps. block_loop dec chain (concat ct) [] None = Inr (ps, f') \<and> concat ps = pt)"
proof -
  from block_loop_roundtrip [of enc dec, OF step pt(1), of chain "[]" None] pt(2)
  obtain ct f where
    ct: "block_loop enc chain pt [] None = Inr (ct, f)" "f \<noteq> None" "length (concat ct) = 8 * n"
      "\<forall>blocks' first'. \<exists>ps f'. block_loop dec chain (concat ct) blocks' first'
          = Inr (blocks' @ ps, f') \<and> concat ps = pt"
    by auto
  from ct(4) obtain ps f' where
    "block_loop dec chain (concat ct) [] None = Inr ([] @ ps, f')" "concat ps = pt" by blast
  with ct show ?thesis by auto
qed

lemma mode_roundtrip:
  assumes iv: "mode \<noteq> ECB \<longrightarrow> length (case customIv of Some v \<Rightarrow> v | None \<Rightarrow> randomBlock) = 8"
    and pt: "length pt = 8 * n" "0 < n"
  shows "\<exists>enc dec. encryptBytesWithMode pt keyHex mode customIv randomBlock = Inr enc
           \<and> decryptBytesWithMode (enc_output enc) keyHex mode = Inr dec
           \<and> dec_output dec = pt
           \<and> length (enc_output enc) mod 8 = 0
           \<and> (mode \<noteq> ECB \<longrightarrow>
                take 8 (enc_output enc) = (case customIv of Some v \<Rightarrow> v | None \<Rightarrow> randomBlock))"
proof (cases "mode = ECB")
  case True
  from loops_roundtrip [of "ecb_encrypt_body keyHex" "ecb_decrypt_body keyHex", OF ecb_step pt,
      of "[]"]
  obtain ct f f' ps where
    l: "block_loop (ecb_encrypt_body keyHex) [] pt [] None = Inr (ct, Some f)"
       "length (concat ct) = 8 * n"
       "block_loop (ecb_decrypt_body keyHex) [] (concat ct) [] None = Inr (ps, f')"
       "concat ps = pt"
    by blast
  let ?enc = "\<lparr> enc_output = concat ct, enc_firstBlockResult = f \<rparr>"
  let ?dec = "\<lparr> dec_output = concat ps, dec_firstBlockResult = f' \<rparr>"
  from True l have "encryptBytesWithMode pt keyHex mode customIv randomBlock = Inr ?enc"
    "decryptBytesWithMode (enc_output ?enc) keyHex mode = Inr ?dec"
    by (simp_all add: encryptBytesWithMode_loops decryptBytesWithMode_loops concatByteChunks_def)
  with True l(2,4) show ?thesis
    by (intro exI [of _ ?enc] exI [of _ ?dec]) simp
next
  case False
  let ?iv = "case customIv of Some v \<Rightarrow> v | None \<Rightarrow> randomBlock"
  let ?e = "case mode of CBC \<Rightarrow> cbc_encrypt_body keyHex | CFB \<Rightarrow> cfb_encrypt_body keyHex
              | OFB \<Rightarrow> ofb_encrypt_body keyHex | _ \<Rightarrow> ctr_encrypt_body keyHex"
  let ?d = "case mode of CBC \<Rightarrow> cbc_decrypt_body keyHex | CFB \<Rightarrow> cfb_decrypt_body keyHex
              | OFB \<Rightarrow> ofb_decrypt_body keyHex | _ \<Rightarrow> ctr_decrypt_body keyHex"
  from False iv have ivl: "length ?iv = 8" by simp
  from loops_roundtrip [of ?e ?d, OF mode_step pt, of ?iv]
  obtain ct f f' ps where
    l: "block_loop ?e ?iv pt [] None = Inr (ct, Some f)"
       "length (concat ct) = 8 * n"
       "block_loop ?d ?iv (concat ct) [] None = Inr (ps, f')"
       "concat ps = pt"
    by blast
  let ?enc = "\<lparr> enc_output = ?iv @ concat ct, enc_firstBlockResult = f \<rparr>"
  let ?dec = "\<lparr> dec_output = concat ps, dec_firstBlockResult = f' \<rparr>"
  from ivl l(2) pt(2) have out: "\<not> length (?iv @ concat ct) < 16" "take 8 (?iv @ concat ct) = ?iv"
    "drop 8 (?iv @ concat ct) = concat ct" "length (?iv @ concat ct) mod 8 = 0"
    by simp_all
  from False l(1) have e: "encryptBytesWithMode pt keyHex mode customIv randomBlock = Inr ?enc"
    by (simp add: encryptBytesWithMode_loops concatByteChunks_def Let_def)
  from False l(3) out have d: "decryptBytesWithMode (enc_output ?enc) keyHex mode = Inr ?dec"
    by (simp add: decryptBytesWithMode_loops concatByteChunks_def Let_def)
  from e d out l(4) show ?thesis
    by (intro exI [of _ ?enc] exI [of _ ?dec]) simp
qed

text \<open>
  C3. For each of the five modes, every payload of any length, every key and every IV of
  8 bytes (given by the caller or drawn at random): encrypting the padded payload
  succeeds; for the modes other than ECB the ciphertext starts with the IV; decrypting
  that ciphertext succeeds, and unpadding the result gives the payload. The same holds
  through the two branches of \<^verbatim>\<open>runTextProcess\<close>.
\<close>

theorem mode_decrypt_inverts_encrypt:
  assumes "mode \<noteq> ECB \<longrightarrow> length (case customIv of Some v \<Rightarrow> v | None \<Rightarrow> randomBlock) = 8"
  shows "(\<exists>enc dec.
            encryptBytesWithMode (padTo8Bytes payload) keyHex mode customIv randomBlock = Inr enc
            \<and> decryptBytesWithMode (enc_output enc) keyHex mode = Inr dec
            \<and> unpadPkcs (dec_output dec) = payload
            \<and> (mode \<noteq> ECB \<longrightarrow>
                 take 8 (enc_output enc) = (case customIv of Some v \<Rightarrow> v | None \<Rightarrow> randomBlock)))
       \<and> (\<exists>ct. runTextProcess_encrypt payload keyHex mode customIv randomBlock = Inr ct
            \<and> runTextProcess_decrypt ct keyHex mode = Inr payload)"
proof -
  from length_padTo8Bytes [of payload] obtain n where
    n: "0 < n" "length (padTo8Bytes payload) = 8 * n" by blast
  from mode_roundtrip [OF assms n(2,1), of keyHex] obtain enc dec where
    r: "encryptBytesWithMode (padTo8Bytes payload) keyHex mode customIv randomBlock = Inr enc"
       "decryptBytesWithMode (enc_output enc) keyHex mode = Inr dec"
       "dec_output dec = padTo8Bytes payload" "length (enc_output enc) mod 8 = 0"
       "mode \<noteq> ECB \<longrightarrow>
          take 8 (enc_output enc) = (case customIv of Some v \<Rightarrow> v | None \<Rightarrow> randomBlock)"
    by (elim exE conjE)
  then have "runTextProcess_encrypt payload keyHex mode customIv randomBlock = Inr (enc_output enc)"
    "runTextProcess_decrypt (enc_output enc) keyHex mode = Inr payload"
    by (simp_all add: runTextProcess_encrypt_def runTextProcess_decrypt_def Let_def unpad_pad)
  with r show ?thesis
    by (auto simp: unpad_pad)
qed

theorem mode_decrypt_inverts_encrypt_witness:
  "length [1, 2, 3, 4, 5, 6, 7, 8 :: 8 word] = 8
   \<and> (\<exists>ct. runTextProcess_encrypt [104, 105] ''133457799bbcdff1'' CBC
               (Some [1, 2, 3, 4, 5, 6, 7, 8]) [] = Inr ct
          \<and> runTextProcess_decrypt ct ''133457799bbcdff1'' CBC = Inr [104, 105])"
  using mode_decrypt_inverts_encrypt
          [where mode = CBC and customIv = "Some [1, 2, 3, 4, 5, 6, 7, 8]" and randomBlock = "[]"
             and payload = "[104, 105]" and keyHex = "''133457799bbcdff1''"]
  by simp

lemma decryptBytesWithMode_errors:
  "decryptBytesWithMode ct keyHex mode =
     (if mode \<noteq> ECB \<and> length ct < 16 then Inl MissingIvError
      else decryptBytesWithMode ct keyHex mode)
   \<and> (\<not> (mode \<noteq> ECB \<and> length ct < 16) \<longrightarrow> \<not> isl (decryptBytesWithMode ct keyHex mode))"
proof -
  have total: "\<exists>bs f. block_loop body chain rest [] None = Inr (bs, f)"
    if "body \<in> {ecb_decrypt_body keyHex, cbc_decrypt_body keyHex, cfb_decrypt_body keyHex,
                 ofb_decrypt_body keyHex, ctr_decrypt_body keyHex}" for body chain rest
  proof (rule block_loop_total)
    fix chain b
    from that decryptBlock_total [of b keyHex] encryptBlock_total [of chain keyHex]
    show "\<exists>out res chain'. body chain b = Inr (out, res, chain')"
      by (auto simp: ecb_decrypt_body_def cbc_decrypt_body_def cfb_decrypt_body_def
            ofb_decrypt_body_def ctr_decrypt_body_def Let_def)
  qed
  show ?thesis
  proof (cases mode)
    case ECB
    with total [of "ecb_decrypt_body keyHex" "[]" ct] show ?thesis
      by (auto simp: decryptBytesWithMode_loops)
  next
    case CBC
    with total [of "cbc_decrypt_body keyHex" "take 8 ct" "drop 8 ct"] show ?thesis
      by (auto simp: decryptBytesWithMode_loops MissingIvError_def Let_def)
  next
    case CFB
    with total [of "cfb_decrypt_body keyHex" "take 8 ct" "drop 8 ct"] show ?thesis
      by (auto simp: decryptBytesWithMode_loops MissingIvError_def Let_def)
  next
    case OFB
    with total [of "ofb_decrypt_body keyHex" "take 8 ct" "drop 8 ct"] show ?thesis
      by (auto simp: decryptBytesWithMode_loops MissingIvError_def Let_def)
  next
    case CTR
    with total [of "ctr_decrypt_body keyHex" "take 8 ct" "drop 8 ct"] show ?thesis
      by (auto simp: decryptBytesWithMode_loops MissingIvError_def Let_def)
  qed
qed

lemma LengthError_neq_MissingIvError: "LengthError \<noteq> MissingIvError"
  by (simp add: LengthError_def MissingIvError_def)

text \<open>
  C6. Decryption of a text in the mode layer is the decrypt branch of \<^verbatim>\<open>runTextProcess\<close>:
  the length check, then \<^verbatim>\<open>decryptBytesWithMode\<close>, then \<^verbatim>\<open>unpadPkcs\<close>. It fails exactly in
  two cases. It fails with the length error exactly when the length of the ciphertext is
  not a multiple of 8; for a ciphertext of at least 8 bytes in a mode other than ECB that
  is when the ciphertext without its IV of 8 bytes is not a multiple of 8. It fails with
  the missing-IV error exactly when the length is a multiple of 8, the mode is not ECB and
  there are fewer than 16 bytes: the length check comes first, so a ciphertext of fewer
  than 16 bytes whose length is not a multiple of 8 fails with the length error. A failure
  returns the error and no output. \<^verbatim>\<open>decryptBytesWithMode\<close> itself checks no length: it
  fails exactly when the mode is not ECB and there are fewer than 16 bytes, with the
  missing-IV error, and returns an output in every other case.
\<close>

theorem mode_decrypt_failures:
  "(runTextProcess_decrypt src keyHex mode = Inl LengthError \<longleftrightarrow> length src mod 8 \<noteq> 0)
   \<and> (mode \<noteq> ECB \<and> 8 \<le> length src \<longrightarrow>
        (runTextProcess_decrypt src keyHex mode = Inl LengthError
           \<longleftrightarrow> length (drop 8 src) mod 8 \<noteq> 0))
   \<and> (runTextProcess_decrypt src keyHex mode = Inl MissingIvError
        \<longleftrightarrow> length src mod 8 = 0 \<and> mode \<noteq> ECB \<and> length src < 16)
   \<and> (isl (runTextProcess_decrypt src keyHex mode)
        \<longleftrightarrow> length src mod 8 \<noteq> 0 \<or> (mode \<noteq> ECB \<and> length src < 16))
   \<and> (decryptBytesWithMode src keyHex mode = Inl MissingIvError
        \<longleftrightarrow> mode \<noteq> ECB \<and> length src < 16)
   \<and> (isl (decryptBytesWithMode src keyHex mode) \<longleftrightarrow> mode \<noteq> ECB \<and> length src < 16)"
proof -
  note d = decryptBytesWithMode_errors [of src keyHex mode]
  show ?thesis
  proof (cases "mode \<noteq> ECB \<and> length src < 16")
    case True
    with d have "decryptBytesWithMode src keyHex mode = Inl MissingIvError" by metis
    with True show ?thesis
      using LengthError_neq_MissingIvError
      by (auto simp: runTextProcess_decrypt_def LengthError_def [symmetric]) arith+
  next
    case False
    with d obtain r where r: "decryptBytesWithMode src keyHex mode = Inr r"
      by (cases "decryptBytesWithMode src keyHex mode") auto
    have "(length src - 8) mod 8 = length src mod 8" if "8 \<le> length src"
      using that by (simp add: le_mod_geq)
    with False r show ?thesis
      using LengthError_neq_MissingIvError
      by (auto simp: runTextProcess_decrypt_def LengthError_def [symmetric])
  qed
qed

theorem mode_decrypt_failures_witness:
  "runTextProcess_decrypt [1, 2, 3] ''133457799bbcdff1'' CBC = Inl LengthError
   \<and> runTextProcess_decrypt [1, 2, 3, 4, 5, 6, 7, 8] ''133457799bbcdff1'' CBC = Inl MissingIvError
   \<and> \<not> isl (runTextProcess_decrypt [1, 2, 3, 4, 5, 6, 7, 8] ''133457799bbcdff1'' ECB)
   \<and> \<not> isl (decryptBytesWithMode [1, 2, 3, 4, 5, 6, 7, 8, 9, 10, 11, 12, 13, 14, 15, 16, 17]
               ''133457799bbcdff1'' CTR)"
  using mode_decrypt_failures [of "[1, 2, 3]" "''133457799bbcdff1''" CBC]
    mode_decrypt_failures [of "[1, 2, 3, 4, 5, 6, 7, 8]" "''133457799bbcdff1''" CBC]
    mode_decrypt_failures [of "[1, 2, 3, 4, 5, 6, 7, 8]" "''133457799bbcdff1''" ECB]
    mode_decrypt_failures [of "[1, 2, 3, 4, 5, 6, 7, 8, 9, 10, 11, 12, 13, 14, 15, 16, 17]"
      "''133457799bbcdff1''" CTR]
  by simp

text \<open>
  Two runs against the reading that every ciphertext whose length without the IV is not a
  multiple of 8 fails with the length error and every ciphertext of fewer than 16 bytes in
  a mode other than ECB with the missing-IV error. \<^verbatim>\<open>decryptBytesWithMode\<close> returns an
  output for 17 bytes in CTR mode, an IV and 9 bytes. \<^verbatim>\<open>runTextProcess\<close> fails with the
  length error, not with the missing-IV error, for 3 bytes in CBC mode.
\<close>

theorem mode_decrypt_counterexample:
  "\<not> isl (decryptBytesWithMode [1, 2, 3, 4, 5, 6, 7, 8, 9, 10, 11, 12, 13, 14, 15, 16, 17]
            ''133457799bbcdff1'' CTR)
   \<and> length (drop 8 [1, 2, 3, 4, 5, 6, 7, 8, 9, 10, 11, 12, 13, 14, 15, 16, 17 :: 8 word]) = 9
   \<and> runTextProcess_decrypt [1, 2, 3] ''133457799bbcdff1'' CBC
       = Inl (JsError ''Ciphertext length must be a multiple of 8 bytes.'')
   \<and> LengthError = JsError ''Ciphertext length must be a multiple of 8 bytes.''
   \<and> MissingIvError = JsError ''Ciphertext must include an 8-byte IV/nonce.''"
proof -
  have "\<not> isl (decryptBytesWithMode [1, 2, 3, 4, 5, 6, 7, 8, 9, 10, 11, 12, 13, 14, 15, 16, 17]
              ''133457799bbcdff1'' CTR)"
    using decryptBytesWithMode_errors
      [of "[1, 2, 3, 4, 5, 6, 7, 8, 9, 10, 11, 12, 13, 14, 15, 16, 17]" "''133457799bbcdff1''" CTR]
    by simp
  moreover have "runTextProcess_decrypt [1, 2, 3] ''133457799bbcdff1'' CBC
      = Inl (JsError ''Ciphertext length must be a multiple of 8 bytes.'')"
    by (simp add: runTextProcess_decrypt_def)
  ultimately show ?thesis by (simp add: LengthError_def MissingIvError_def)
qed

section \<open>The diagnostic variant engine\<close>

lemma variant_round_loop_total:
  "roundsToRun \<le> length sequence \<Longrightarrow>
   \<exists>l r. variant_round_loop i roundsToRun sequence opts left right = Inr (l, r)"
proof (induction i roundsToRun sequence opts left right rule: variant_round_loop.induct)
  case (1 i roundsToRun sequence opts left right)
  show ?case
  proof (cases "i < roundsToRun")
    case False
    then show ?thesis by (simp add: variant_round_loop.simps [of i])
  next
    case True
    with "1.prems" have inside: "i < length sequence" by simp
    from feistel_round_total [of left right "hexToBits (sequence ! i) 48"] obtain res where
      res: "feistel_round left right (hexToBits (sequence ! i) 48) = Inr res" by blast
    from "1.IH" [OF True inside refl refl res refl "1.prems"] True inside res show ?thesis
      by (simp add: variant_round_loop.simps [of i] Let_def)
  qed
qed

lemma runVariant_total: "\<exists>out. runVariant p k opts = Inr out"
proof -
  let ?block = "hexToBits (normalizeBlockHex p) 64"
  let ?ip = "if skipIP opts = Some True then ?block else initial_permutation ?block"
  let ?keys = "generateSubkeysWithSchedule k (shiftSchedule opts)"
  let ?seq = "if keyOrder opts = Some Reversed then rev ?keys else ?keys"
  let ?n = "min (length ?seq) (case roundLimit opts of Some n \<Rightarrow> n | None \<Rightarrow> 16)"
  have "?n \<le> length ?seq" by simp
  from variant_round_loop_total [OF this, of 0 opts "take 32 ?ip" "drop 32 ?ip"] obtain l r where
    "variant_round_loop 0 ?n ?seq opts (take 32 ?ip) (drop 32 ?ip) = Inr (l, r)" by blast
  then show ?thesis
    by (simp add: runVariant_def Let_def)
qed

lemma runVariant_output: "runVariant p k (p_options pattern) = Inr (variant_output p k pattern)"
  using runVariant_total [of p k "p_options pattern"] by (auto simp: variant_output_def)

lemma des_encrypt_output: "\<exists>res. des_encrypt p k = Inr res \<and> outputHex res = expected_output p k"
  using runCore_total [of p k Encrypt] by (auto simp: des_encrypt_def expected_output_def)

lemma pattern_loop_first:
  assumes "i < length ps" "variant_output p k (ps ! i) = s"
    "\<forall>j < i. variant_output p k (ps ! j) \<noteq> s"
    "0 \<le> credit (ps ! i)" "credit (ps ! i) \<le> 1"
  shows "pattern_loop ps p k s expected = Inr (matched_result (ps ! i) expected s)"
  using assms
proof (induction ps arbitrary: i)
  case Nil
  then show ?case by simp
next
  case (Cons pattern ps)
  show ?case
  proof (cases i)
    case 0
    with Cons.prems show ?thesis
      by (simp add: runVariant_output matched_result_def)
  next
    case (Suc i')
    with Cons.prems have "variant_output p k pattern \<noteq> s" by auto
    moreover from Suc Cons.prems have "\<forall>j < i'. variant_output p k (ps ! j) \<noteq> s" by auto
    moreover note Cons.IH [of i'] Suc Cons.prems
    ultimately show ?thesis
      by (simp add: runVariant_output)
  qed
qed

lemma pattern_loop_none:
  assumes "\<forall>i < length ps. variant_output p k (ps ! i) \<noteq> s"
  shows "pattern_loop ps p k s expected = Inr (unclassified_result expected s)"
  using assms
proof (induction ps)
  case Nil
  then show ?case by (simp add: unclassified_result_def)
next
  case (Cons pattern ps)
  from Cons.prems have "variant_output p k pattern \<noteq> s" by auto
  moreover from Cons.prems have "\<forall>i < length ps. variant_output p k (ps ! i) \<noteq> s" by auto
  ultimately show ?case
    using Cons.IH by (simp add: runVariant_output)
qed

lemma lowerChar_idem: "lowerChar (lowerChar c) = lowerChar c"
proof -
  have "(of_char c :: nat) < 256" by simp
  then show ?thesis
    by (auto simp: lowerChar_def Let_def)
qed

lemma toLowerCase_idem: "toLowerCase (toLowerCase s) = toLowerCase s"
  by (simp add: toLowerCase_def lowerChar_idem)

lemma hexToBits_toLowerCase: "hexToBits (toLowerCase hex) sz = hexToBits hex sz"
  by (simp add: hexToBits_def toLowerCase_idem)

lemma generate_subkeys_toLowerCase: "generate_subkeys (toLowerCase k) = generate_subkeys k"
proof -
  have "take 16 (padEnd (toLowerCase k) 16 (CHR ''0'')) = toLowerCase (take 16 (padEnd k 16 (CHR ''0'')))"
    by (simp add: toLowerCase_def padEnd_def take_map lowerChar_zero)
  then show ?thesis
    by (simp add: generate_subkeys_def hexToBits_toLowerCase)
qed

lemma expected_output_toLowerCase:
  "expected_output (toLowerCase p) (toLowerCase k) = expected_output p k"
proof -
  have "output_of (runCore (toLowerCase p) (toLowerCase k) Encrypt) = output_of (runCore p k Encrypt)"
    by (simp add: output_of_runCore hexToBits_toLowerCase key_sequence_def
          generate_subkeys_toLowerCase)
  then show ?thesis
    using runCore_total [of p k Encrypt] runCore_total [of "toLowerCase p" "toLowerCase k" Encrypt]
    by (auto simp: expected_output_def des_encrypt_def output_of_def)
qed

lemma normalizeBlockHex_hex16:
  assumes "length s = 16" "isHexString s"
  shows "normalizeBlockHex s = toLowerCase s"
proof -
  from assms(2) have "filter (\<lambda>c. hexDigitValue c \<noteq> None) s = s"
    by (simp add: isHexString_def list_all_iff)
  with assms(1) show ?thesis
    by (simp add: normalizeBlockHex_def padEnd_def)
qed

lemma hexDigitValue_lowerChar: "hexDigitValue c \<noteq> None \<Longrightarrow> hexDigitValue (lowerChar c) \<noteq> None"
  by (drule hexDigit_cases, simp)
     (elim disjE; simp add: lowerChar_def hexDigitValue_def)

lemma normalizeBlockHex_idem: "normalizeBlockHex (normalizeBlockHex s) = normalizeBlockHex s"
proof -
  let ?f = "filter (\<lambda>c. hexDigitValue c \<noteq> None) s"
  let ?t = "take 16 (padEnd ?f 16 (CHR ''0''))"
  have zero: "hexDigitValue (CHR ''0'') \<noteq> None" by (simp add: hexDigitValue_def)
  have "set ?t \<subseteq> set (padEnd ?f 16 (CHR ''0''))" by (rule set_take_subset)
  also have "\<dots> \<subseteq> set ?f \<union> {CHR ''0''}" by (auto simp: padEnd_def)
  finally have sub: "set ?t \<subseteq> set ?f \<union> {CHR ''0''}" .
  have "hexDigitValue c \<noteq> None" if "c \<in> set (toLowerCase ?t)" for c
  proof -
    from that obtain c' where c': "c' \<in> set ?t" "c = lowerChar c'"
      by (auto simp: toLowerCase_def)
    from c'(1) sub zero have "hexDigitValue c' \<noteq> None" by auto
    then show ?thesis unfolding c'(2) by (rule hexDigitValue_lowerChar)
  qed
  then have "isHexString (toLowerCase ?t)"
    by (simp only: isHexString_def list_all_iff) blast
  moreover have "length (toLowerCase ?t) = 16"
    by (simp add: toLowerCase_def padEnd_def)
  ultimately have "normalizeBlockHex (toLowerCase ?t) = toLowerCase (toLowerCase ?t)"
    by (intro normalizeBlockHex_hex16)
  then have "normalizeBlockHex (toLowerCase ?t) = toLowerCase ?t"
    by (simp only: toLowerCase_idem)
  then show ?thesis
    by (simp only: normalizeBlockHex_def [of s])
qed

lemma variant_output_normalize:
  "variant_output (normalizeBlockHex p) (normalizeBlockHex k) pattern = variant_output p k pattern"
  by (simp add: variant_output_def runVariant_def generateSubkeysWithSchedule_def
        normalizeBlockHex_idem)

lemma patterns_credit: "\<forall>pattern \<in> set patterns. 0 \<le> credit pattern \<and> credit pattern \<le> 1"
  by (simp add: patterns_def)

lemma patterns_codes:
  "map code patterns =
     [''skip-ip-fp'', ''skip-ip'', ''no-final-swap'', ''swap-after-round-1'',
      ''reversed-subkeys'', ''two-rounds-only'', ''four-rounds-only'', ''all-one-bit-shifts'']"
  by (simp add: patterns_def)

lemma patterns_credits:
  "map credit patterns = [6 / 10, 5 / 10, 6 / 10, 5 / 10, 4 / 10, 2 / 10, 3 / 10, 3 / 10]"
  by (simp add: patterns_def)

lemma diagnose_general:
  fixes p k s
  defines "e \<equiv> expected_output (normalizeBlockHex p) (normalizeBlockHex k)"
    and "s' \<equiv> normalizeBlockHex s"
  shows "(s' = e \<longrightarrow> diagnoseDESSubmission p k s = Inr (correct_result e s'))
       \<and> (s' \<noteq> e \<longrightarrow>
            (\<forall>i < length patterns.
               variant_output p k (patterns ! i) = s'
               \<and> (\<forall>j < i. variant_output p k (patterns ! j) \<noteq> s')
               \<longrightarrow> diagnoseDESSubmission p k s = Inr (matched_result (patterns ! i) e s'))
          \<and> ((\<forall>i < length patterns. variant_output p k (patterns ! i) \<noteq> s')
               \<longrightarrow> diagnoseDESSubmission p k s = Inr (unclassified_result e s')))"
proof -
  let ?p = "normalizeBlockHex p" and ?k = "normalizeBlockHex k"
  from des_encrypt_output [of ?p ?k] obtain res where
    res: "des_encrypt ?p ?k = Inr res" "outputHex res = e" by (auto simp: e_def)
  have correct: "diagnoseDESSubmission p k s = Inr (correct_result e s')" if "s' = e"
    using that res by (simp add: diagnoseDESSubmission_def Let_def correct_result_def s'_def)
  have loop: "diagnoseDESSubmission p k s = pattern_loop patterns ?p ?k s' e" if "s' \<noteq> e"
    using that res by (simp add: diagnoseDESSubmission_def Let_def s'_def)
  have first: "diagnoseDESSubmission p k s = Inr (matched_result (patterns ! i) e s')"
    if "s' \<noteq> e" "i < length patterns" "variant_output p k (patterns ! i) = s'"
      "\<forall>j < i. variant_output p k (patterns ! j) \<noteq> s'" for i
  proof -
    from that(2) patterns_credit have "0 \<le> credit (patterns ! i)" "credit (patterns ! i) \<le> 1"
      by simp_all
    with that show ?thesis
      by (simp add: loop pattern_loop_first variant_output_normalize)
  qed
  have none: "diagnoseDESSubmission p k s = Inr (unclassified_result e s')"
    if "s' \<noteq> e" "\<forall>i < length patterns. variant_output p k (patterns ! i) \<noteq> s'"
    using that by (simp add: loop pattern_loop_none variant_output_normalize)
  from correct first none show ?thesis by blast
qed

lemma variant_nist_0:
  "runVariant ''0123456789abcdef'' ''133457799bbcdff1'' (p_options (patterns ! 0))
     = Inr ''0c465f038e5907dc''"
  by code_simp

lemma variant_nist_1:
  "runVariant ''0123456789abcdef'' ''133457799bbcdff1'' (p_options (patterns ! 1))
     = Inr ''2d9ddee626003682''"
  by code_simp

lemma variant_nist_2:
  "runVariant ''0123456789abcdef'' ''133457799bbcdff1'' (p_options (patterns ! 2))
     = Inr ''4ad423a80f05780a''"
  by code_simp

lemma variant_nist_3:
  "runVariant ''0123456789abcdef'' ''133457799bbcdff1'' (p_options (patterns ! 3))
     = Inr ''06ab792f372cb4d0''"
  by code_simp

lemma variant_nist_4:
  "runVariant ''0123456789abcdef'' ''133457799bbcdff1'' (p_options (patterns ! 4))
     = Inr ''ee0f7c12e0b09338''"
  by code_simp

lemma variant_nist_5:
  "runVariant ''0123456789abcdef'' ''133457799bbcdff1'' (p_options (patterns ! 5))
     = Inr ''9da4cee1048ceec0''"
  by code_simp

lemma variant_nist_6:
  "runVariant ''0123456789abcdef'' ''133457799bbcdff1'' (p_options (patterns ! 6))
     = Inr ''49d8632862d26382''"
  by code_simp

lemma variant_nist_7:
  "runVariant ''0123456789abcdef'' ''133457799bbcdff1'' (p_options (patterns ! 7))
     = Inr ''67bb0bfdb2ff157b''"
  by code_simp

lemma variant_outputs_nist:
  "map (variant_output ''0123456789abcdef'' ''133457799bbcdff1'') patterns
     = [''0c465f038e5907dc'', ''2d9ddee626003682'', ''4ad423a80f05780a'', ''06ab792f372cb4d0'',
        ''ee0f7c12e0b09338'', ''9da4cee1048ceec0'', ''49d8632862d26382'', ''67bb0bfdb2ff157b'']"
proof (rule nth_equalityI)
  have len: "length patterns = 8" by (simp add: patterns_def)
  then show "length (map (variant_output ''0123456789abcdef'' ''133457799bbcdff1'') patterns)
      = length [''0c465f038e5907dc'', ''2d9ddee626003682'', ''4ad423a80f05780a'',
          ''06ab792f372cb4d0'', ''ee0f7c12e0b09338'', ''9da4cee1048ceec0'', ''49d8632862d26382'',
          ''67bb0bfdb2ff157b'']"
    by simp
  fix i assume "i < length (map (variant_output ''0123456789abcdef'' ''133457799bbcdff1'') patterns)"
  with len have "i < 8" by simp
  then have "i = 0 \<or> i = 1 \<or> i = 2 \<or> i = 3 \<or> i = 4 \<or> i = 5 \<or> i = 6 \<or> i = 7"
    by arith
  then show "map (variant_output ''0123456789abcdef'' ''133457799bbcdff1'') patterns ! i
      = [''0c465f038e5907dc'', ''2d9ddee626003682'', ''4ad423a80f05780a'',
          ''06ab792f372cb4d0'', ''ee0f7c12e0b09338'', ''9da4cee1048ceec0'', ''49d8632862d26382'',
          ''67bb0bfdb2ff157b''] ! i"
    using len
    by (elim disjE)
       (simp_all add: variant_output_def variant_nist_0 variant_nist_1 [unfolded One_nat_def]
          variant_nist_2
          variant_nist_3 variant_nist_4 variant_nist_5 variant_nist_6 variant_nist_7)
qed

lemma expected_nist: "expected_output ''0123456789abcdef'' ''133457799bbcdff1'' = ''85e813540f0ab405''"
  using vector_nist by (simp add: expected_output_def output_of_def split: sum.splits)

lemma vector_long_plaintext:
  "output_of (des_encrypt ''0123456789abcdef0000000000000000'' ''133457799bbcdff1'')
     = Inr ''948a43f98a834f7e''"
  by code_simp

lemma normalizeBlockHex_samples:
  "normalizeBlockHex ''0123456789abcdef'' = ''0123456789abcdef''"
  "normalizeBlockHex ''133457799bbcdff1'' = ''133457799bbcdff1''"
  "normalizeBlockHex ''0123456789abcdef0000000000000000'' = ''0123456789abcdef''"
  "normalizeBlockHex ''85E813540F0AB405'' = ''85e813540f0ab405''"
  "normalizeBlockHex ''948a43f98a834f7e'' = ''948a43f98a834f7e''"
  "normalizeBlockHex ''85e813540f0ab405'' = ''85e813540f0ab405''"
  "normalizeBlockHex ''0c465f038e5907dc'' = ''0c465f038e5907dc''"
  "normalizeBlockHex ''9D A4 CE E1 04 8C EE C0'' = ''9da4cee1048ceec0''"
  "normalizeBlockHex ''0'' = ''0000000000000000''"
  by code_simp+

lemma variant_output_nist:
  assumes "i < 8"
  shows "variant_output ''0123456789abcdef'' ''133457799bbcdff1'' (patterns ! i)
           = [''0c465f038e5907dc'', ''2d9ddee626003682'', ''4ad423a80f05780a'',
              ''06ab792f372cb4d0'', ''ee0f7c12e0b09338'', ''9da4cee1048ceec0'',
              ''49d8632862d26382'', ''67bb0bfdb2ff157b''] ! i"
proof -
  have "length patterns = 8" by (simp add: patterns_def)
  with assms have "variant_output ''0123456789abcdef'' ''133457799bbcdff1'' (patterns ! i)
      = map (variant_output ''0123456789abcdef'' ''133457799bbcdff1'') patterns ! i"
    by simp
  then show ?thesis by (simp only: variant_outputs_nist)
qed

lemma cases8:
  "i < 8 \<Longrightarrow> i = 0 \<or> i = 1 \<or> i = 2 \<or> i = 3 \<or> i = 4 \<or> i = 5 \<or> i = 6 \<or> i = (7 :: nat)"
  by arith

text \<open>
  C4. \<^verbatim>\<open>diagnoseDESSubmission\<close> compares normalised arguments: of each of \<open>p\<close>, \<open>k\<close> and \<open>s\<close>
  \<^verbatim>\<open>normalizeBlockHex\<close> keeps the hexadecimal digits, pads them on the right with \<^verbatim>\<open>0\<close> to
  16, keeps the first 16 and writes them in lowercase; call the results \<open>p'\<close>, \<open>k'\<close> and
  \<open>s'\<close>. For all \<open>p\<close>, \<open>k\<close> and \<open>s\<close>: when \<open>s'\<close> equals the output of \<^verbatim>\<open>des_encrypt\<close> on \<open>p'\<close> and
  \<open>k'\<close>, the result is the classification \<^verbatim>\<open>correct\<close> with score 1. Otherwise \<open>s'\<close> is
  compared with the variants in the order of the catalog, and the result is that of the
  first pattern whose variant output on \<open>p'\<close> and \<open>k'\<close> equals \<open>s'\<close>, with the credit of that
  pattern as the score, whatever later patterns give; when no variant output equals \<open>s'\<close>
  the result has score 0 and the tag \<^verbatim>\<open>unclassified\<close>. The catalog has the eight patterns in
  the order named, with credit 0.6 for \<^verbatim>\<open>skip-ip-fp\<close> and 0.2 for \<^verbatim>\<open>two-rounds-only\<close>. When
  \<open>p\<close> and \<open>k\<close> have 16 hexadecimal digits, \<open>p'\<close> and \<open>k'\<close> are \<open>p\<close> and \<open>k\<close> in lowercase and give
  the output of \<^verbatim>\<open>des_encrypt\<close> on \<open>p\<close> and \<open>k\<close>; when \<open>s\<close> has 16 lowercase hexadecimal digits,
  \<open>s'\<close> is \<open>s\<close>.
\<close>

theorem diagnose_first_match:
  fixes p k s
  defines "p' \<equiv> normalizeBlockHex p" and "k' \<equiv> normalizeBlockHex k"
    and "s' \<equiv> normalizeBlockHex s"
  shows "(\<exists>res. des_encrypt p' k' = Inr res \<and> outputHex res = expected_output p' k')
       \<and> (\<forall>i < length patterns.
             runVariant p' k' (p_options (patterns ! i)) = Inr (variant_output p' k' (patterns ! i)))
       \<and> (s' = expected_output p' k' \<longrightarrow>
            diagnoseDESSubmission p k s = Inr (correct_result (expected_output p' k') s'))
       \<and> (s' \<noteq> expected_output p' k' \<longrightarrow>
            (\<forall>i < length patterns.
               variant_output p' k' (patterns ! i) = s'
               \<and> (\<forall>j < i. variant_output p' k' (patterns ! j) \<noteq> s')
               \<longrightarrow> diagnoseDESSubmission p k s
                     = Inr (matched_result (patterns ! i) (expected_output p' k') s'))
          \<and> ((\<forall>i < length patterns. variant_output p' k' (patterns ! i) \<noteq> s')
               \<longrightarrow> diagnoseDESSubmission p k s
                     = Inr (unclassified_result (expected_output p' k') s')))
       \<and> map code patterns =
           [''skip-ip-fp'', ''skip-ip'', ''no-final-swap'', ''swap-after-round-1'',
            ''reversed-subkeys'', ''two-rounds-only'', ''four-rounds-only'', ''all-one-bit-shifts'']
       \<and> map credit patterns = [6 / 10, 5 / 10, 6 / 10, 5 / 10, 4 / 10, 2 / 10, 3 / 10, 3 / 10]
       \<and> code (patterns ! 0) = ''skip-ip-fp'' \<and> credit (patterns ! 0) = 6 / 10
       \<and> code (patterns ! 5) = ''two-rounds-only'' \<and> credit (patterns ! 5) = 2 / 10
       \<and> score (correct_result e t) = 1 \<and> tags (correct_result e t) = [''correct'']
       \<and> score (matched_result pattern e t) = credit pattern
       \<and> matchedPattern (matched_result pattern e t) = Some (code pattern)
       \<and> score (unclassified_result e t) = 0
       \<and> tags (unclassified_result e t) = [''incorrect'', ''unclassified'']
       \<and> (length p = 16 \<and> isHexString p \<longrightarrow> p' = toLowerCase p)
       \<and> (length k = 16 \<and> isHexString k \<longrightarrow> k' = toLowerCase k)
       \<and> (length p = 16 \<and> isHexString p \<and> length k = 16 \<and> isHexString k \<longrightarrow>
            expected_output p' k' = expected_output p k
            \<and> variant_output p' k' pattern = variant_output p k pattern)
       \<and> (length s = 16 \<and> isLowerHex s \<longrightarrow> s' = s)"
proof -
  have out: "\<exists>res. des_encrypt p' k' = Inr res \<and> outputHex res = expected_output p' k'"
    by (rule des_encrypt_output)
  have var: "\<forall>i < length patterns.
      runVariant p' k' (p_options (patterns ! i)) = Inr (variant_output p' k' (patterns ! i))"
    by (simp add: runVariant_output)
  have v: "variant_output p' k' q = variant_output p k q" for q
    unfolding p'_def k'_def by (rule variant_output_normalize)
  have entries: "code (patterns ! 0) = ''skip-ip-fp''" "credit (patterns ! 0) = 6 / 10"
    "code (patterns ! 5) = ''two-rounds-only''" "credit (patterns ! 5) = 2 / 10"
    by (simp_all add: patterns_def)
  have np: "p' = toLowerCase p" if "length p = 16" "isHexString p"
    unfolding p'_def using that by (rule normalizeBlockHex_hex16)
  have nk: "k' = toLowerCase k" if "length k = 16" "isHexString k"
    unfolding k'_def using that by (rule normalizeBlockHex_hex16)
  have ns: "s' = s" if "length s = 16" "isLowerHex s"
    unfolding s'_def using that
    by (simp add: normalizeBlockHex_hex16 isLowerHex_isHexString toLowerCase_isLowerHex)
  have e: "expected_output p' k' = expected_output p k"
    if "length p = 16" "isHexString p" "length k = 16" "isHexString k"
    using that by (simp add: np nk expected_output_toLowerCase)
  have main: "(s' = expected_output p' k' \<longrightarrow>
            diagnoseDESSubmission p k s = Inr (correct_result (expected_output p' k') s'))
       \<and> (s' \<noteq> expected_output p' k' \<longrightarrow>
            (\<forall>i < length patterns.
               variant_output p' k' (patterns ! i) = s'
               \<and> (\<forall>j < i. variant_output p' k' (patterns ! j) \<noteq> s')
               \<longrightarrow> diagnoseDESSubmission p k s
                     = Inr (matched_result (patterns ! i) (expected_output p' k') s'))
          \<and> ((\<forall>i < length patterns. variant_output p' k' (patterns ! i) \<noteq> s')
               \<longrightarrow> diagnoseDESSubmission p k s
                     = Inr (unclassified_result (expected_output p' k') s')))"
    using diagnose_general [where p = p and k = k and s = s]
    by (simp only: p'_def k'_def s'_def variant_output_normalize)
  have rest: "map code patterns =
           [''skip-ip-fp'', ''skip-ip'', ''no-final-swap'', ''swap-after-round-1'',
            ''reversed-subkeys'', ''two-rounds-only'', ''four-rounds-only'', ''all-one-bit-shifts'']
       \<and> map credit patterns = [6 / 10, 5 / 10, 6 / 10, 5 / 10, 4 / 10, 2 / 10, 3 / 10, 3 / 10]
       \<and> code (patterns ! 0) = ''skip-ip-fp'' \<and> credit (patterns ! 0) = 6 / 10
       \<and> code (patterns ! 5) = ''two-rounds-only'' \<and> credit (patterns ! 5) = 2 / 10
       \<and> score (correct_result e t) = 1 \<and> tags (correct_result e t) = [''correct'']
       \<and> score (matched_result pattern e t) = credit pattern
       \<and> matchedPattern (matched_result pattern e t) = Some (code pattern)
       \<and> score (unclassified_result e t) = 0
       \<and> tags (unclassified_result e t) = [''incorrect'', ''unclassified'']"
    by (simp add: patterns_codes patterns_credits entries correct_result_def matched_result_def
          unclassified_result_def)
  have norm: "(length p = 16 \<and> isHexString p \<longrightarrow> p' = toLowerCase p)
       \<and> (length k = 16 \<and> isHexString k \<longrightarrow> k' = toLowerCase k)
       \<and> (length p = 16 \<and> isHexString p \<and> length k = 16 \<and> isHexString k \<longrightarrow>
            expected_output p' k' = expected_output p k
            \<and> variant_output p' k' pattern = variant_output p k pattern)
       \<and> (length s = 16 \<and> isLowerHex s \<longrightarrow> s' = s)"
    using np nk ns e v by blast
  from rest norm have tail: "map code patterns =
           [''skip-ip-fp'', ''skip-ip'', ''no-final-swap'', ''swap-after-round-1'',
            ''reversed-subkeys'', ''two-rounds-only'', ''four-rounds-only'', ''all-one-bit-shifts'']
       \<and> map credit patterns = [6 / 10, 5 / 10, 6 / 10, 5 / 10, 4 / 10, 2 / 10, 3 / 10, 3 / 10]
       \<and> code (patterns ! 0) = ''skip-ip-fp'' \<and> credit (patterns ! 0) = 6 / 10
       \<and> code (patterns ! 5) = ''two-rounds-only'' \<and> credit (patterns ! 5) = 2 / 10
       \<and> score (correct_result e t) = 1 \<and> tags (correct_result e t) = [''correct'']
       \<and> score (matched_result pattern e t) = credit pattern
       \<and> matchedPattern (matched_result pattern e t) = Some (code pattern)
       \<and> score (unclassified_result e t) = 0
       \<and> tags (unclassified_result e t) = [''incorrect'', ''unclassified'']
       \<and> (length p = 16 \<and> isHexString p \<longrightarrow> p' = toLowerCase p)
       \<and> (length k = 16 \<and> isHexString k \<longrightarrow> k' = toLowerCase k)
       \<and> (length p = 16 \<and> isHexString p \<and> length k = 16 \<and> isHexString k \<longrightarrow>
            expected_output p' k' = expected_output p k
            \<and> variant_output p' k' pattern = variant_output p k pattern)
       \<and> (length s = 16 \<and> isLowerHex s \<longrightarrow> s' = s)"
    by (simp only: conj_assoc)
  show ?thesis
    by (rule conjI [OF out], rule conjI [OF var], rule conjI [OF main [THEN conjunct1]],
        rule conjI [OF main [THEN conjunct2]], rule tail)
qed

theorem diagnose_first_match_witness:
  "diagnoseDESSubmission ''0123456789abcdef'' ''133457799bbcdff1'' ''85e813540f0ab405''
     = Inr (correct_result ''85e813540f0ab405'' ''85e813540f0ab405'')
   \<and> diagnoseDESSubmission ''0123456789abcdef'' ''133457799bbcdff1'' ''0c465f038e5907dc''
     = Inr (matched_result (patterns ! 0) ''85e813540f0ab405'' ''0c465f038e5907dc'')
   \<and> diagnoseDESSubmission ''0123456789abcdef'' ''133457799bbcdff1'' ''9D A4 CE E1 04 8C EE C0''
     = Inr (matched_result (patterns ! 5) ''85e813540f0ab405'' ''9da4cee1048ceec0'')
   \<and> diagnoseDESSubmission ''0123456789abcdef'' ''133457799bbcdff1'' ''0''
     = Inr (unclassified_result ''85e813540f0ab405'' ''0000000000000000'')"
proof -
  let ?p = "''0123456789abcdef''" and ?k = "''133457799bbcdff1''"
  note n = normalizeBlockHex_samples
  have len: "length patterns = 8" by (simp add: patterns_def)
  note v = variant_output_nist
  have 1: "diagnoseDESSubmission ?p ?k ''85e813540f0ab405''
             = Inr (correct_result ''85e813540f0ab405'' ''85e813540f0ab405'')"
    using diagnose_first_match [where p = ?p and k = ?k and s = "''85e813540f0ab405''"]
    by (simp add: n expected_nist)
  have 2: "diagnoseDESSubmission ?p ?k ''0c465f038e5907dc''
             = Inr (matched_result (patterns ! 0) ''85e813540f0ab405'' ''0c465f038e5907dc'')"
  proof -
    from diagnose_first_match [where p = ?p and k = ?k and s = "''0c465f038e5907dc''"]
    have "\<forall>i < length patterns.
            variant_output ?p ?k (patterns ! i) = ''0c465f038e5907dc''
            \<and> (\<forall>j < i. variant_output ?p ?k (patterns ! j) \<noteq> ''0c465f038e5907dc'')
            \<longrightarrow> diagnoseDESSubmission ?p ?k ''0c465f038e5907dc''
                  = Inr (matched_result (patterns ! i) ''85e813540f0ab405'' ''0c465f038e5907dc'')"
      by (simp add: n expected_nist)
    from this [rule_format, of 0] v [of 0] len show ?thesis by simp
  qed
  have 3: "diagnoseDESSubmission ?p ?k ''9D A4 CE E1 04 8C EE C0''
             = Inr (matched_result (patterns ! 5) ''85e813540f0ab405'' ''9da4cee1048ceec0'')"
  proof -
    from diagnose_first_match [where p = ?p and k = ?k and s = "''9D A4 CE E1 04 8C EE C0''"]
    have a: "\<forall>i < length patterns.
            variant_output ?p ?k (patterns ! i) = ''9da4cee1048ceec0''
            \<and> (\<forall>j < i. variant_output ?p ?k (patterns ! j) \<noteq> ''9da4cee1048ceec0'')
            \<longrightarrow> diagnoseDESSubmission ?p ?k ''9D A4 CE E1 04 8C EE C0''
                  = Inr (matched_result (patterns ! i) ''85e813540f0ab405'' ''9da4cee1048ceec0'')"
      by (simp add: n expected_nist)
    have "variant_output ?p ?k (patterns ! j) \<noteq> ''9da4cee1048ceec0''" if "j < 5" for j
    proof -
      from that have "j < 8" by simp
      from cases8 [OF this] that v [OF \<open>j < 8\<close>] show ?thesis by auto
    qed
    with a [rule_format, of 5] v [of 5] len show ?thesis by simp
  qed
  have 4: "diagnoseDESSubmission ?p ?k ''0''
             = Inr (unclassified_result ''85e813540f0ab405'' ''0000000000000000'')"
  proof -
    from diagnose_first_match [where p = ?p and k = ?k and s = "''0''"]
    have a: "(\<forall>i < length patterns. variant_output ?p ?k (patterns ! i) \<noteq> ''0000000000000000'')
            \<longrightarrow> diagnoseDESSubmission ?p ?k ''0''
                  = Inr (unclassified_result ''85e813540f0ab405'' ''0000000000000000'')"
      by (simp add: n expected_nist)
    have "variant_output ?p ?k (patterns ! i) \<noteq> ''0000000000000000''" if "i < 8" for i
      using cases8 [OF that] v [OF that] by auto
    with a len show ?thesis by simp
  qed
  from 1 2 3 4 show ?thesis by simp
qed

text \<open>
  Two runs against the reading on the arguments as given. The plaintext of 32 digits is
  one the interface accepts: \<^verbatim>\<open>des_encrypt\<close> encrypts its last 16 digits and the diagnosis
  its first 16, so the very output of \<^verbatim>\<open>des_encrypt\<close> on \<open>p\<close> and \<open>k\<close>, submitted as \<open>s\<close>, is
  classified \<^verbatim>\<open>unclassified\<close> with score 0. And a submission in uppercase digits, which is
  not the string that \<^verbatim>\<open>des_encrypt\<close> returns and not the output of any variant, is
  classified \<^verbatim>\<open>correct\<close> with score 1.
\<close>

theorem diagnose_counterexample:
  "output_of (des_encrypt ''0123456789abcdef0000000000000000'' ''133457799bbcdff1'')
     = Inr ''948a43f98a834f7e''
   \<and> diagnoseDESSubmission ''0123456789abcdef0000000000000000'' ''133457799bbcdff1''
       ''948a43f98a834f7e''
     = Inr (unclassified_result ''85e813540f0ab405'' ''948a43f98a834f7e'')
   \<and> score (unclassified_result ''85e813540f0ab405'' ''948a43f98a834f7e'') = 0
   \<and> output_of (des_encrypt ''0123456789abcdef'' ''133457799bbcdff1'') = Inr ''85e813540f0ab405''
   \<and> ''85E813540F0AB405'' \<noteq> ''85e813540f0ab405''
   \<and> ''85E813540F0AB405''
       \<notin> set (map (variant_output ''0123456789abcdef'' ''133457799bbcdff1'') patterns)
   \<and> diagnoseDESSubmission ''0123456789abcdef'' ''133457799bbcdff1'' ''85E813540F0AB405''
     = Inr (correct_result ''85e813540f0ab405'' ''85e813540f0ab405'')
   \<and> score (correct_result ''85e813540f0ab405'' ''85e813540f0ab405'') = 1"
proof -
  let ?p = "''0123456789abcdef''" and ?k = "''133457799bbcdff1''"
  let ?long = "''0123456789abcdef0000000000000000''"
  note n = normalizeBlockHex_samples
  have len: "length patterns = 8" by (simp add: patterns_def)
  have vl: "variant_output ?long ?k q = variant_output ?p ?k q" for q
    using variant_output_normalize [of ?long ?k q] variant_output_normalize [of ?p ?k q]
    by (simp add: n)
  have 1: "diagnoseDESSubmission ?long ?k ''948a43f98a834f7e''
             = Inr (unclassified_result ''85e813540f0ab405'' ''948a43f98a834f7e'')"
  proof -
    from diagnose_general [where p = ?long and k = ?k and s = "''948a43f98a834f7e''"]
    have a: "(\<forall>i < length patterns. variant_output ?p ?k (patterns ! i) \<noteq> ''948a43f98a834f7e'')
            \<longrightarrow> diagnoseDESSubmission ?long ?k ''948a43f98a834f7e''
                  = Inr (unclassified_result ''85e813540f0ab405'' ''948a43f98a834f7e'')"
      by (simp add: n expected_nist vl)
    have "variant_output ?p ?k (patterns ! i) \<noteq> ''948a43f98a834f7e''" if "i < 8" for i
      using cases8 [OF that] variant_output_nist [OF that] by auto
    with a len show ?thesis by simp
  qed
  have 2: "diagnoseDESSubmission ?p ?k ''85E813540F0AB405''
             = Inr (correct_result ''85e813540f0ab405'' ''85e813540f0ab405'')"
    using diagnose_general [where p = ?p and k = ?k and s = "''85E813540F0AB405''"]
    by (simp add: n expected_nist)
  have 3: "''85E813540F0AB405''
       \<notin> set (map (variant_output ''0123456789abcdef'' ''133457799bbcdff1'') patterns)"
    by (simp only: variant_outputs_nist) simp
  from 1 2 3 vector_long_plaintext vector_nist show ?thesis
    by (simp add: unclassified_result_def correct_result_def)
qed

end
